theory Spec2Isabelle
  imports Main "HOL-Library.FSet" "HOL-Library.Product_Lexorder"
begin

section \<open>The Minesweeper board (class \<open>Minesweeper\<close>)\<close>

text \<open>
  A cell is a pair \<open>(row, column)\<close> of Python integers. The board keeps its dimensions
  and the field \<open>board\<close>, a list of rows of booleans (\<open>True\<close> marks a mine). The
  fields \<open>mines\<close> and \<open>mines_found\<close> of the class repeat the board's contents for the
  win test and are not read by any function embedded here.
\<close>

type_synonym cell = "int \<times> int"

record minesweeper =
  board_height :: int
  board_width :: int
  board :: "bool list list"

text \<open>\<open>Minesweeper.is_mine\<close>: \<open>self.board[i][j]\<close>.\<close>

definition is_mine :: "minesweeper \<Rightarrow> cell \<Rightarrow> bool" where
  "is_mine g cell = (case cell of (i, j) \<Rightarrow> board g ! nat i ! nat j)"

text \<open>
  \<open>Minesweeper.nearby_mines\<close>: the two nested \<open>range\<close> loops walk the 3 by 3 block
  around the cell in row-major order; the counter goes up for every cell of the block
  that is not the cell itself, lies on the board and holds a mine.
\<close>

definition nearby_mines :: "minesweeper \<Rightarrow> cell \<Rightarrow> int" where
  "nearby_mines g cell =
     int (length (filter
       (\<lambda>(i, j). (i, j) \<noteq> cell \<and> 0 \<le> i \<and> i < board_height g \<and> 0 \<le> j \<and> j < board_width g
                 \<and> board g ! nat i ! nat j)
       (List.product [fst cell - 1 .. fst cell + 1] [snd cell - 1 .. snd cell + 1])))"

section \<open>Sentences (class \<open>Sentence\<close>)\<close>

text \<open>
  A sentence is a mutable object: a set of cells and a count. Python compares two
  sentences in two ways, by identity (\<open>is\<close>) and by value (\<open>__eq__\<close>), and
  \<open>add_knowledge\<close> uses both. The field \<open>ident\<close> stands for the object's identity
  (its address); the constructor takes it from the allocation counter of the state.
\<close>

record sentence =
  ident :: nat
  cells :: "cell fset"
  count :: int

text \<open>\<open>Sentence.__eq__\<close>\<close>

definition sentence_eq :: "sentence \<Rightarrow> sentence \<Rightarrow> bool" where
  "sentence_eq a b \<longleftrightarrow> cells a = cells b \<and> count a = count b"

text \<open>\<open>Sentence.known_mines\<close> and \<open>Sentence.known_safes\<close>\<close>

definition known_mines :: "sentence \<Rightarrow> cell fset" where
  "known_mines s = (if count s = int (fcard (cells s)) \<and> count s > 0 then cells s else {||})"

definition known_safes :: "sentence \<Rightarrow> cell fset" where
  "known_safes s = (if count s = 0 then cells s else {||})"

text \<open>\<open>Sentence.mark_mine\<close> and \<open>Sentence.mark_safe\<close>\<close>

definition sentence_mark_mine :: "cell \<Rightarrow> sentence \<Rightarrow> sentence" where
  "sentence_mark_mine c s =
     (if c |\<notin>| cells s then s\<lparr>cells := finsert c (cells s), count := count s + 1\<rparr> else s)"

definition sentence_mark_safe :: "cell \<Rightarrow> sentence \<Rightarrow> sentence" where
  "sentence_mark_safe c s =
     (if c |\<in>| cells s then s\<lparr>cells := cells s |-| {|c|}\<rparr> else s)"

section \<open>The player (class \<open>MinesweeperAI\<close>)\<close>

record ai =
  height :: int
  width :: int
  moves_made :: "cell fset"
  mines :: "cell fset"
  safes :: "cell fset"
  knowledge :: "sentence list"
  fresh :: nat

text \<open>\<open>MinesweeperAI.__init__\<close>\<close>

definition init_ai :: "int \<Rightarrow> int \<Rightarrow> ai" where
  "init_ai h w =
     \<lparr>height = h, width = w, moves_made = {||}, mines = {||}, safes = {||},
      knowledge = [], fresh = 0\<rparr>"

text \<open>
  \<open>MinesweeperAI.mark_mine\<close> and \<open>MinesweeperAI.mark_safe\<close>: the cell joins the set, then
  every sentence of the list is updated in place (the list itself keeps its objects and
  their order).
\<close>

definition mark_mine :: "cell \<Rightarrow> ai \<Rightarrow> ai" where
  "mark_mine c st =
     st\<lparr>mines := finsert c (mines st), knowledge := map (sentence_mark_mine c) (knowledge st)\<rparr>"

definition mark_safe :: "cell \<Rightarrow> ai \<Rightarrow> ai" where
  "mark_safe c st =
     st\<lparr>safes := finsert c (safes st), knowledge := map (sentence_mark_safe c) (knowledge st)\<rparr>"

text \<open>\<open>MinesweeperAI.get_surrounding_cells\<close>\<close>

definition get_surrounding_cells :: "ai \<Rightarrow> cell \<Rightarrow> cell fset" where
  "get_surrounding_cells st cell =
     (case cell of (row, col) \<Rightarrow>
        let row1 = (if row > 0 then row - 1 else 0);
            row2 = (if row < height st - 1 then row + 1 else height st - 1);
            col1 = (if col > 0 then col - 1 else 0);
            col2 = (if col < width st - 1 then col + 1 else width st - 1)
        in fset_of_list (filter (\<lambda>surrounding_cell. surrounding_cell \<noteq> cell
                                    \<and> surrounding_cell |\<notin>| safes st)
                                (List.product [row1 .. row2] [col1 .. col2])))"

text \<open>
  A \<open>for\<close> loop over a copy of a set visits every member once, in an order Python does
  not fix. The model visits them in increasing order; the marking functions commute, so
  the order does not show in the result.
\<close>

definition mark_mines_of :: "cell fset \<Rightarrow> ai \<Rightarrow> ai" where
  "mark_mines_of cs st = fold mark_mine (sorted_list_of_fset cs) st"

definition mark_safes_of :: "cell fset \<Rightarrow> ai \<Rightarrow> ai" where
  "mark_safes_of cs st = fold mark_safe (sorted_list_of_fset cs) st"

lemma knowledge_length_mark_mine: "length (knowledge (mark_mine c st)) = length (knowledge st)"
  by (simp add: mark_mine_def)

lemma knowledge_length_mark_safe: "length (knowledge (mark_safe c st)) = length (knowledge st)"
  by (simp add: mark_safe_def)

lemma knowledge_length_fold_mark_mine:
  "length (knowledge (fold mark_mine cs st)) = length (knowledge st)"
  by (induction cs arbitrary: st) (simp_all add: knowledge_length_mark_mine)

lemma knowledge_length_fold_mark_safe:
  "length (knowledge (fold mark_safe cs st)) = length (knowledge st)"
  by (induction cs arbitrary: st) (simp_all add: knowledge_length_mark_safe)

lemma knowledge_length_mark_mines_of:
  "length (knowledge (mark_mines_of cs st)) = length (knowledge st)"
  by (simp add: mark_mines_of_def knowledge_length_fold_mark_mine)

lemma knowledge_length_mark_safes_of:
  "length (knowledge (mark_safes_of cs st)) = length (knowledge st)"
  by (simp add: mark_safes_of_def knowledge_length_fold_mark_safe)

text \<open>
  The deduction loops of \<open>add_knowledge\<close>:
  \<^verbatim>\<open>for sentence in self.knowledge:
      for cell1 in sentence.known_mines().copy(): self.mark_mine(cell1)\<close>
  The list iterator holds an index \<open>i\<close>, reads the sentence at \<open>i\<close> in the state of that
  moment and stops when \<open>i\<close> reaches the length of the list.
\<close>

function mark_mines_loop :: "nat \<Rightarrow> ai \<Rightarrow> ai" where
  "mark_mines_loop i st =
     (if i < length (knowledge st)
      then mark_mines_loop (Suc i) (mark_mines_of (known_mines (knowledge st ! i)) st)
      else st)"
  by pat_completeness auto
termination
  by (relation "measure (\<lambda>(i, st). length (knowledge st) - i)")
     (auto simp: knowledge_length_mark_mines_of)

function mark_safes_loop :: "nat \<Rightarrow> ai \<Rightarrow> ai" where
  "mark_safes_loop i st =
     (if i < length (knowledge st)
      then mark_safes_loop (Suc i) (mark_safes_of (known_safes (knowledge st ! i)) st)
      else st)"
  by pat_completeness auto
termination
  by (relation "measure (\<lambda>(i, st). length (knowledge st) - i)")
     (auto simp: knowledge_length_mark_safes_of)

declare mark_mines_loop.simps [simp del]
declare mark_safes_loop.simps [simp del]

text \<open>
  The subset pass of \<open>add_knowledge\<close>. \<open>list.remove(x)\<close> deletes the first element that
  is equal to \<open>x\<close> by \<open>__eq__\<close>, and \<open>x not in list\<close> asks whether no element is equal
  to \<open>x\<close>.
\<close>

fun list_remove :: "sentence \<Rightarrow> sentence list \<Rightarrow> sentence list" where
  "list_remove x [] = []"
| "list_remove x (y # ys) = (if sentence_eq y x then ys else y # list_remove x ys)"

definition list_contains :: "sentence list \<Rightarrow> sentence \<Rightarrow> bool" where
  "list_contains ys x = list_ex (\<lambda>y. sentence_eq y x) ys"

text \<open>The body of the inner loop, for the sentences bound to \<open>sentence1\<close> and \<open>sentence2\<close>.\<close>

definition subset_step :: "sentence \<Rightarrow> sentence \<Rightarrow> ai \<Rightarrow> ai" where
  "subset_step sentence1 sentence2 st =
     (if ident sentence1 = ident sentence2 then st
      else if sentence_eq sentence1 sentence2
      then st\<lparr>knowledge := list_remove sentence2 (knowledge st)\<rparr>
      else if cells sentence1 |\<subseteq>| cells sentence2
      then (let new_knowledge = \<lparr>ident = fresh st,
                                 cells = cells sentence2 |-| cells sentence1,
                                 count = count sentence2 - count sentence1\<rparr>
            in if \<not> list_contains (knowledge st) new_knowledge
               then st\<lparr>knowledge := knowledge st @ [new_knowledge], fresh := Suc (fresh st)\<rparr>
               else st)
      else st)"

text \<open>
  Both loops iterate over \<open>self.knowledge\<close> while the body appends to it and removes
  from it: each iterator keeps its index, and the test against the length of the list
  is made anew at every step. Nothing bounds the number of steps, so a run that never
  leaves the loop is the value \<open>None\<close>.
\<close>

partial_function (option) subset_inner :: "sentence \<Rightarrow> nat \<Rightarrow> ai \<Rightarrow> ai option" where
  "subset_inner sentence1 j st =
     (if j < length (knowledge st)
      then subset_inner sentence1 (Suc j) (subset_step sentence1 (knowledge st ! j) st)
      else Some st)"

partial_function (option) subset_outer :: "nat \<Rightarrow> ai \<Rightarrow> ai option" where
  "subset_outer i st =
     (if i < length (knowledge st)
      then Option.bind (subset_inner (knowledge st ! i) 0 st) (subset_outer (Suc i))
      else Some st)"

declare subset_inner.simps [code]
declare subset_outer.simps [code]

text \<open>
  \<open>MinesweeperAI.add_knowledge\<close>, in the order of the source. The three calls that
  print the state at the end read it only and are left out.
\<close>

definition add_knowledge :: "cell \<Rightarrow> int \<Rightarrow> ai \<Rightarrow> ai option" where
  "add_knowledge cell cnt st =
     (let surrounding_cells = get_surrounding_cells st cell;
          st1 = st\<lparr>moves_made := finsert cell (moves_made st)\<rparr>;
          st2 = mark_safe cell st1;
          st3 = st2\<lparr>knowledge := knowledge st2 @
                        [\<lparr>ident = fresh st2, cells = surrounding_cells, count = cnt\<rparr>],
                    fresh := Suc (fresh st2)\<rparr>;
          st4 = mark_safes_loop 0 (mark_mines_loop 0 st3);
          st5 = (if cnt = 0 then mark_safes_of surrounding_cells st4 else st4)
      in map_option (\<lambda>st6. mark_safes_loop 0 (mark_mines_loop 0 st6)) (subset_outer 0 st5))"

text \<open>A sequence of calls of \<open>add_knowledge\<close>, one per observation \<open>(cell, count)\<close>.\<close>

fun add_knowledge_seq :: "(cell \<times> int) list \<Rightarrow> ai \<Rightarrow> ai option" where
  "add_knowledge_seq [] st = Some st"
| "add_knowledge_seq (ob # obs) st =
     Option.bind (add_knowledge (fst ob) (snd ob) st) (add_knowledge_seq obs)"

text \<open>
  \<open>set.pop()\<close> removes and returns a member that Python does not specify (and raises
  \<open>KeyError\<close> on an empty set; both callers test the length first). The model gives
  the set of possible outcomes: any member, together with the rest of the set.
\<close>

definition set_pop :: "'a fset \<Rightarrow> ('a \<times> 'a fset) set" where
  "set_pop s = (\<lambda>x. (x, s |-| {|x|})) ` fset s"

text \<open>
  \<open>MinesweeperAI.make_safe_move\<close> and \<open>MinesweeperAI.make_random_move\<close>: the possible
  pairs of returned value (\<open>None\<close> or a cell) and state of the player after the call.
  The set popped from is a local one.
\<close>

definition make_safe_move :: "ai \<Rightarrow> (cell option \<times> ai) set" where
  "make_safe_move st =
     (let moves = safes st |-| moves_made st
      in if fcard moves > 0 then (\<lambda>(move, rest). (Some move, st)) ` set_pop moves
         else {(None, st)})"

definition make_random_move :: "ai \<Rightarrow> (cell option \<times> ai) set" where
  "make_random_move st =
     (let cells = fset_of_list (filter (\<lambda>cell. cell |\<notin>| moves_made st \<and> cell |\<notin>| mines st)
                                  (List.product [0 .. height st - 1] [0 .. width st - 1]))
      in if fcard cells = 0 then {(None, st)}
         else (\<lambda>(move, rest). (Some move, st)) ` set_pop cells)"

section \<open>Ground truth\<close>

text \<open>
  What the claims call the hazards of a grid: the cells of the board that hold a mine.
  A sentence is true of a board when its count is the number of hazards among its cells.
  A state of the player is sound for a board when it has the board's dimensions, every
  cell of \<open>mines\<close> is a hazard, no cell of \<open>safes\<close> is one and every sentence of the
  knowledge base is true. An observation \<open>(cell, count)\<close> is truthful when the cell is
  on the board and holds no mine (\<open>add_knowledge\<close> is, in the words of its docstring,
  called for a safe cell) and the count is what \<open>nearby_mines\<close> returns for it.
\<close>

definition on_board :: "minesweeper \<Rightarrow> cell \<Rightarrow> bool" where
  "on_board g cell =
     (case cell of (i, j) \<Rightarrow> 0 \<le> i \<and> i < board_height g \<and> 0 \<le> j \<and> j < board_width g)"

definition hazard :: "minesweeper \<Rightarrow> cell \<Rightarrow> bool" where
  "hazard g cell \<longleftrightarrow> on_board g cell \<and> is_mine g cell"

definition hazard_count :: "minesweeper \<Rightarrow> cell fset \<Rightarrow> int" where
  "hazard_count g cs = int (fcard (ffilter (hazard g) cs))"

definition sentence_true :: "minesweeper \<Rightarrow> sentence \<Rightarrow> bool" where
  "sentence_true g s \<longleftrightarrow> count s = hazard_count g (cells s)"

definition sound :: "minesweeper \<Rightarrow> ai \<Rightarrow> bool" where
  "sound g st \<longleftrightarrow>
     height st = board_height g \<and> width st = board_width g
     \<and> fBall (mines st) (hazard g)
     \<and> fBall (safes st) (\<lambda>c. \<not> hazard g c)
     \<and> list_all (sentence_true g) (knowledge st)"

definition truthful :: "minesweeper \<Rightarrow> cell \<times> int \<Rightarrow> bool" where
  "truthful g ob \<longleftrightarrow> on_board g (fst ob) \<and> \<not> is_mine g (fst ob) \<and> snd ob = nearby_mines g (fst ob)"

section \<open>Measures for the subset pass\<close>

text \<open>
  The inner loop with \<open>sentence1\<close> fixed: the sentences from index \<open>j\<close> on are still
  to be visited; one whose cells include those of \<open>sentence1\<close> weighs 2, since visiting it
  may append a sentence, which then weighs 1.
\<close>

definition weight :: "sentence \<Rightarrow> sentence \<Rightarrow> nat" where
  "weight s1 e = (if cells s1 |\<subseteq>| cells e then 2 else 1)"

definition inner_measure :: "sentence \<Rightarrow> nat \<Rightarrow> ai \<Rightarrow> nat" where
  "inner_measure s1 j st = sum_list (map (weight s1) (drop j (knowledge st)))"

text \<open>
  The outer loop: with \<open>U\<close> a set holding every cell of every sentence, the cell sets
  within \<open>U\<close> that no sentence of the list has yet are \<open>missing\<close>; the length of the
  list plus the number of missing cell sets never goes up in a sound state.
\<close>

definition within :: "cell fset \<Rightarrow> ai \<Rightarrow> bool" where
  "within U st \<longleftrightarrow> (\<forall>s \<in> set (knowledge st). cells s |\<subseteq>| U)"

definition missing :: "cell fset \<Rightarrow> sentence list \<Rightarrow> cell fset set" where
  "missing U K = fset (fPow U) - cells ` set K"

definition budget :: "cell fset \<Rightarrow> ai \<Rightarrow> nat" where
  "budget U st = length (knowledge st) + card (missing U (knowledge st))"

definition all_cells :: "sentence list \<Rightarrow> cell fset" where
  "all_cells K = foldr (\<lambda>s u. cells s |\<union>| u) K {||}"

text \<open>
  A state of the inner loop from which it never returns: \<open>sentence1\<close> has no cells and a
  positive count, every sentence of the list has no cells, and the one about to be
  visited is the last of the list, with a negative count that is the least of all.
\<close>

definition runaway :: "sentence \<Rightarrow> nat \<Rightarrow> ai \<Rightarrow> bool" where
  "runaway s1 j st \<longleftrightarrow>
     cells s1 = {||} \<and> 0 < count s1 \<and> Suc j = length (knowledge st)
     \<and> (\<forall>e \<in> set (knowledge st). cells e = {||} \<and> count (knowledge st ! j) \<le> count e)
     \<and> count (knowledge st ! j) < 0
     \<and> ident (knowledge st ! j) \<noteq> ident s1 \<and> ident s1 < fresh st"

section \<open>What a call does to the sentences it holds\<close>

text \<open>
  A marking is what a run of calls of \<open>mark_mine\<close> and \<open>mark_safe\<close> does to every
  sentence of the list: a composition of \<open>Sentence.mark_mine\<close> for cells of \<open>M\<close> and
  \<open>Sentence.mark_safe\<close> for cells of \<open>S\<close>. A state is marked from another when its
  list is the other's list with one marking applied to every sentence.
\<close>

inductive marking :: "cell fset \<Rightarrow> cell fset \<Rightarrow> (sentence \<Rightarrow> sentence) \<Rightarrow> bool"
  for M :: "cell fset" and S :: "cell fset" where
  keep: "marking M S (\<lambda>s. s)"
| mine: "marking M S G \<Longrightarrow> c |\<in>| M \<Longrightarrow> marking M S (\<lambda>s. sentence_mark_mine c (G s))"
| safe: "marking M S G \<Longrightarrow> c |\<in>| S \<Longrightarrow> marking M S (\<lambda>s. sentence_mark_safe c (G s))"

definition marked :: "ai \<Rightarrow> ai \<Rightarrow> bool" where
  "marked st st' \<longleftrightarrow>
     mines st |\<subseteq>| mines st' \<and> safes st |\<subseteq>| safes st'
     \<and> (\<exists>G. marking (mines st') (safes st') G \<and> knowledge st' = map G (knowledge st))"

text \<open>
  For the inner loop of the subset pass: a sentence equal to \<open>sentence1\<close> is in the list,
  either before the index of the iterator or as the object \<open>sentence1\<close> itself. The values
  of a list are kept by another when every sentence of the first has an equal one there.
\<close>

definition kept_alive :: "sentence \<Rightarrow> nat \<Rightarrow> sentence list \<Rightarrow> bool" where
  "kept_alive s1 j K \<longleftrightarrow>
     (\<exists>e \<in> set (take j K). sentence_eq e s1)
     \<or> (\<exists>e \<in> set K. sentence_eq e s1 \<and> ident e = ident s1)"

definition values_kept :: "sentence list \<Rightarrow> sentence list \<Rightarrow> bool" where
  "values_kept K K' \<longleftrightarrow> (\<forall>e \<in> set K. list_contains K' e)"

section \<open>What the marking functions and the loops leave alone\<close>

lemma mark_mine_fields [simp]:
  "height (mark_mine c st) = height st" "width (mark_mine c st) = width st"
  "moves_made (mark_mine c st) = moves_made st" "safes (mark_mine c st) = safes st"
  "mines (mark_mine c st) = finsert c (mines st)" "fresh (mark_mine c st) = fresh st"
  "knowledge (mark_mine c st) = map (sentence_mark_mine c) (knowledge st)"
  by (simp_all add: mark_mine_def)

lemma mark_safe_fields [simp]:
  "height (mark_safe c st) = height st" "width (mark_safe c st) = width st"
  "moves_made (mark_safe c st) = moves_made st" "mines (mark_safe c st) = mines st"
  "safes (mark_safe c st) = finsert c (safes st)" "fresh (mark_safe c st) = fresh st"
  "knowledge (mark_safe c st) = map (sentence_mark_safe c) (knowledge st)"
  by (simp_all add: mark_safe_def)

lemma fold_mark_mine_fields:
  "height (fold mark_mine cs st) = height st \<and> width (fold mark_mine cs st) = width st
   \<and> moves_made (fold mark_mine cs st) = moves_made st
   \<and> safes (fold mark_mine cs st) = safes st
   \<and> mines (fold mark_mine cs st) = fset_of_list cs |\<union>| mines st"
  by (induction cs arbitrary: st) auto

lemma fold_mark_safe_fields:
  "height (fold mark_safe cs st) = height st \<and> width (fold mark_safe cs st) = width st
   \<and> moves_made (fold mark_safe cs st) = moves_made st
   \<and> mines (fold mark_safe cs st) = mines st
   \<and> safes (fold mark_safe cs st) = fset_of_list cs |\<union>| safes st"
  by (induction cs arbitrary: st) auto

lemma fset_of_sorted_list [simp]: "fset_of_list (sorted_list_of_fset cs) = cs"
  by (rule fset_eqI) (simp add: fset_of_list.rep_eq sorted_list_of_fset.rep_eq)

lemma mark_mines_of_fields [simp]:
  "height (mark_mines_of cs st) = height st" "width (mark_mines_of cs st) = width st"
  "moves_made (mark_mines_of cs st) = moves_made st" "safes (mark_mines_of cs st) = safes st"
  "mines (mark_mines_of cs st) = cs |\<union>| mines st"
  by (simp_all add: mark_mines_of_def fold_mark_mine_fields)

lemma mark_safes_of_fields [simp]:
  "height (mark_safes_of cs st) = height st" "width (mark_safes_of cs st) = width st"
  "moves_made (mark_safes_of cs st) = moves_made st" "mines (mark_safes_of cs st) = mines st"
  "safes (mark_safes_of cs st) = cs |\<union>| safes st"
  by (simp_all add: mark_safes_of_def fold_mark_safe_fields)

lemma mark_mines_loop_fields:
  "height (mark_mines_loop i st) = height st \<and> width (mark_mines_loop i st) = width st
   \<and> moves_made (mark_mines_loop i st) = moves_made st
   \<and> safes (mark_mines_loop i st) = safes st
   \<and> mines st |\<subseteq>| mines (mark_mines_loop i st)
   \<and> length (knowledge (mark_mines_loop i st)) = length (knowledge st)"
proof (induction i st rule: mark_mines_loop.induct)
  case (1 i st)
  show ?case
  proof (cases "i < length (knowledge st)")
    case True
    with 1 show ?thesis
      by (subst (1 2 3 4 5 6) mark_mines_loop.simps)
         (auto simp: knowledge_length_mark_mines_of)
  next
    case False
    then show ?thesis by (simp add: mark_mines_loop.simps)
  qed
qed

lemma mark_safes_loop_fields:
  "height (mark_safes_loop i st) = height st \<and> width (mark_safes_loop i st) = width st
   \<and> moves_made (mark_safes_loop i st) = moves_made st
   \<and> mines (mark_safes_loop i st) = mines st
   \<and> safes st |\<subseteq>| safes (mark_safes_loop i st)
   \<and> length (knowledge (mark_safes_loop i st)) = length (knowledge st)"
proof (induction i st rule: mark_safes_loop.induct)
  case (1 i st)
  show ?case
  proof (cases "i < length (knowledge st)")
    case True
    with 1 show ?thesis
      by (subst (1 2 3 4 5 6) mark_safes_loop.simps)
         (auto simp: knowledge_length_mark_safes_of)
  next
    case False
    then show ?thesis by (simp add: mark_safes_loop.simps)
  qed
qed

lemma subset_step_fields [simp]:
  "height (subset_step s1 s2 st) = height st" "width (subset_step s1 s2 st) = width st"
  "moves_made (subset_step s1 s2 st) = moves_made st"
  "safes (subset_step s1 s2 st) = safes st" "mines (subset_step s1 s2 st) = mines st"
  by (simp_all add: subset_step_def Let_def)

lemma subset_inner_fields:
  "subset_inner s1 j st = Some st' \<Longrightarrow>
     height st' = height st \<and> width st' = width st \<and> moves_made st' = moves_made st
     \<and> safes st' = safes st \<and> mines st' = mines st"
proof (induction s1 j st st' rule: subset_inner.raw_induct [rotated 1, consumes 1])
  case (1 inner s1 j st st')
  then show ?case by (auto split: if_splits)
qed

lemma subset_outer_fields:
  "subset_outer i st = Some st' \<Longrightarrow>
     height st' = height st \<and> width st' = width st \<and> moves_made st' = moves_made st
     \<and> safes st' = safes st \<and> mines st' = mines st"
proof (induction i st st' rule: subset_outer.raw_induct [rotated 1, consumes 1])
  case (1 outer i st st')
  show ?case
  proof (cases "i < length (knowledge st)")
    case True
    with 1(2) obtain st1 where a: "subset_inner (knowledge st ! i) 0 st = Some st1"
      and b: "outer (Suc i) st1 = Some st'"
      by (auto simp: bind_eq_Some_conv)
    from subset_inner_fields [OF a] 1(1) [OF b] show ?thesis by simp
  next
    case False
    with 1(2) show ?thesis by simp
  qed
qed

lemma mark_of_empty [simp]: "mark_mines_of {||} st = st" "mark_safes_of {||} st = st"
  by (simp_all add: mark_mines_of_def mark_safes_of_def sorted_list_of_fset.rep_eq)

lemma add_knowledge_grows:
  assumes "add_knowledge cell cnt st = Some st'"
  shows "safes st |\<subseteq>| safes st' \<and> mines st |\<subseteq>| mines st'"
proof -
  define st3 where "st3 = (mark_safe cell (st\<lparr>moves_made := finsert cell (moves_made st)\<rparr>))
       \<lparr>knowledge := knowledge (mark_safe cell (st\<lparr>moves_made := finsert cell (moves_made st)\<rparr>)) @
          [\<lparr>ident = fresh (mark_safe cell (st\<lparr>moves_made := finsert cell (moves_made st)\<rparr>)),
            cells = get_surrounding_cells st cell, count = cnt\<rparr>],
        fresh := Suc (fresh (mark_safe cell (st\<lparr>moves_made := finsert cell (moves_made st)\<rparr>)))\<rparr>"
  define st4 where "st4 = mark_safes_loop 0 (mark_mines_loop 0 st3)"
  define st5 where "st5 = (if cnt = 0 then mark_safes_of (get_surrounding_cells st cell) st4 else st4)"
  from assms obtain st6 where o: "subset_outer 0 st5 = Some st6"
    and r: "st' = mark_safes_loop 0 (mark_mines_loop 0 st6)"
    unfolding add_knowledge_def Let_def st3_def [symmetric] st4_def [symmetric] st5_def [symmetric]
    by auto
  have 3: "safes st |\<subseteq>| safes st3 \<and> mines st |\<subseteq>| mines st3"
    by (auto simp: st3_def)
  have 4: "safes st3 |\<subseteq>| safes st4 \<and> mines st3 |\<subseteq>| mines st4"
    using mark_safes_loop_fields [of 0 "mark_mines_loop 0 st3"] mark_mines_loop_fields [of 0 st3]
    by (simp add: st4_def)
  have 5: "safes st4 |\<subseteq>| safes st5 \<and> mines st4 |\<subseteq>| mines st5"
    by (auto simp: st5_def)
  have 6: "safes st6 = safes st5 \<and> mines st6 = mines st5"
    using subset_outer_fields [OF o] by simp
  have 7: "safes st6 |\<subseteq>| safes st' \<and> mines st6 |\<subseteq>| mines st'"
    using mark_safes_loop_fields [of 0 "mark_mines_loop 0 st6"] mark_mines_loop_fields [of 0 st6]
    by (simp add: r)
  from 3 4 5 6 7 show ?thesis by auto
qed

lemma set_pop_iff: "(x, r) \<in> set_pop s \<longleftrightarrow> x |\<in>| s \<and> r = s |-| {|x|}"
  by (auto simp: set_pop_def)

lemma fcard_pos_iff: "0 < fcard s \<longleftrightarrow> s \<noteq> {||}"
proof -
  have "0 < fcard s \<longleftrightarrow> fcard s \<noteq> 0" by arith
  then show ?thesis by (simp only: fcard_0_eq)
qed

section \<open>The order of a loop over a set\<close>

text \<open>
  Marking the cells of a list one after the other gives a result that depends on the set
  of the cells only: a sentence loses all of them (\<open>mark_safe\<close>), or gains those it
  lacks, its count going up by their number (\<open>mark_mine\<close>). So any order in which
  Python visits the copy of the set gives the state the model computes.
\<close>

lemma fold_sentence_mark_safe:
  "fold sentence_mark_safe xs s = s\<lparr>cells := cells s |-| fset_of_list xs\<rparr>"
proof (induction xs arbitrary: s)
  case Nil
  then show ?case by simp
next
  case (Cons x xs)
  have c: "cells (sentence_mark_safe x s) |-| fset_of_list xs
           = cells s |-| finsert x (fset_of_list xs)"
    by (auto simp: sentence_mark_safe_def)
  have "fold sentence_mark_safe (x # xs) s = fold sentence_mark_safe xs (sentence_mark_safe x s)"
    by simp
  also have "\<dots> = (sentence_mark_safe x s)\<lparr>cells := cells s |-| finsert x (fset_of_list xs)\<rparr>"
    unfolding Cons c ..
  also have "\<dots> = s\<lparr>cells := cells s |-| finsert x (fset_of_list xs)\<rparr>"
    by (simp add: sentence_mark_safe_def)
  finally show ?case by simp
qed

lemma fold_sentence_mark_mine:
  "fold sentence_mark_mine xs s =
     s\<lparr>cells := cells s |\<union>| fset_of_list xs,
       count := count s + int (fcard (fset_of_list xs |-| cells s))\<rparr>"
proof (induction xs arbitrary: s)
  case Nil
  then show ?case by simp
next
  case (Cons x xs)
  define t where "t = sentence_mark_mine x s"
  have c: "cells t |\<union>| fset_of_list xs = cells s |\<union>| finsert x (fset_of_list xs)"
    by (auto simp: t_def sentence_mark_mine_def)
  have n: "count t + int (fcard (fset_of_list xs |-| cells t))
           = count s + int (fcard (finsert x (fset_of_list xs) |-| cells s))"
  proof (cases "x |\<in>| cells s")
    case True
    then have "finsert x (fset_of_list xs) |-| cells s = fset_of_list xs |-| cells s" by auto
    with True show ?thesis by (simp add: t_def sentence_mark_mine_def)
  next
    case False
    have a: "finsert x (fset_of_list xs) |-| cells s
             = finsert x (fset_of_list xs |-| finsert x (cells s))"
      using False by auto
    have "x |\<notin>| fset_of_list xs |-| finsert x (cells s)" by simp
    then have "fcard (finsert x (fset_of_list xs) |-| cells s)
               = Suc (fcard (fset_of_list xs |-| finsert x (cells s)))"
      unfolding a by (simp add: fcard_finsert_disjoint)
    with False show ?thesis by (simp add: t_def sentence_mark_mine_def)
  qed
  have "fold sentence_mark_mine (x # xs) s = fold sentence_mark_mine xs t"
    by (simp add: t_def)
  also have "\<dots> = t\<lparr>cells := cells s |\<union>| finsert x (fset_of_list xs),
       count := count s + int (fcard (finsert x (fset_of_list xs) |-| cells s))\<rparr>"
    unfolding Cons c n ..
  also have "\<dots> = s\<lparr>cells := cells s |\<union>| finsert x (fset_of_list xs),
       count := count s + int (fcard (finsert x (fset_of_list xs) |-| cells s))\<rparr>"
    by (simp add: t_def sentence_mark_mine_def)
  finally show ?case by simp
qed

lemma fold_mark_safe_knowledge:
  "knowledge (fold mark_safe xs st) = map (fold sentence_mark_safe xs) (knowledge st)"
  by (induction xs arbitrary: st) simp_all

lemma fold_mark_mine_knowledge:
  "knowledge (fold mark_mine xs st) = map (fold sentence_mark_mine xs) (knowledge st)"
  by (induction xs arbitrary: st) simp_all

lemma fold_mark_fresh:
  "fresh (fold mark_safe xs st) = fresh st" "fresh (fold mark_mine xs st) = fresh st"
  by (induction xs arbitrary: st) simp_all

lemma mark_safes_any_order:
  assumes "set xs = fset cs"
  shows "fold mark_safe xs st = mark_safes_of cs st"
proof -
  have "fset (fset_of_list xs) = fset cs" using assms by (simp add: fset_of_list.rep_eq)
  then have e: "fset_of_list xs = cs" by (simp only: fset_inject)
  have "fold sentence_mark_safe ys = (\<lambda>s. s\<lparr>cells := cells s |-| fset_of_list ys\<rparr>)" for ys
    by (rule ext) (rule fold_sentence_mark_safe)
  then have k: "knowledge (fold mark_safe xs st) = knowledge (mark_safes_of cs st)"
    by (simp only: mark_safes_of_def fold_mark_safe_knowledge e fset_of_sorted_list)
  have f: "fresh (fold mark_safe xs st) = fresh (mark_safes_of cs st)"
    by (simp only: mark_safes_of_def fold_mark_fresh)
  have s: "safes (fold mark_safe xs st) = safes (mark_safes_of cs st)"
    using fold_mark_safe_fields [of xs st] by (simp add: e)
  have o: "height (fold mark_safe xs st) = height (mark_safes_of cs st)"
    "width (fold mark_safe xs st) = width (mark_safes_of cs st)"
    "moves_made (fold mark_safe xs st) = moves_made (mark_safes_of cs st)"
    "mines (fold mark_safe xs st) = mines (mark_safes_of cs st)"
    using fold_mark_safe_fields [of xs st] by simp_all
  show ?thesis
    using k f s o by (intro ai.equality) simp_all
qed

lemma mark_mines_any_order:
  assumes "set xs = fset cs"
  shows "fold mark_mine xs st = mark_mines_of cs st"
proof -
  have "fset (fset_of_list xs) = fset cs" using assms by (simp add: fset_of_list.rep_eq)
  then have e: "fset_of_list xs = cs" by (simp only: fset_inject)
  have "fold sentence_mark_mine ys =
          (\<lambda>s. s\<lparr>cells := cells s |\<union>| fset_of_list ys,
                   count := count s + int (fcard (fset_of_list ys |-| cells s))\<rparr>)" for ys
    by (rule ext) (rule fold_sentence_mark_mine)
  then have k: "knowledge (fold mark_mine xs st) = knowledge (mark_mines_of cs st)"
    by (simp only: mark_mines_of_def fold_mark_mine_knowledge e fset_of_sorted_list)
  have f: "fresh (fold mark_mine xs st) = fresh (mark_mines_of cs st)"
    by (simp only: mark_mines_of_def fold_mark_fresh)
  have s: "mines (fold mark_mine xs st) = mines (mark_mines_of cs st)"
    using fold_mark_mine_fields [of xs st] by (simp add: e)
  have o: "height (fold mark_mine xs st) = height (mark_mines_of cs st)"
    "width (fold mark_mine xs st) = width (mark_mines_of cs st)"
    "moves_made (fold mark_mine xs st) = moves_made (mark_mines_of cs st)"
    "safes (fold mark_mine xs st) = safes (mark_mines_of cs st)"
    using fold_mark_mine_fields [of xs st] by simp_all
  show ?thesis
    using k f s o by (intro ai.equality) simp_all
qed

section \<open>Soundness is kept by every step\<close>

lemma hazard_count_card: "hazard_count g cs = int (card {c \<in> fset cs. hazard g c})"
proof -
  have "fset (ffilter (hazard g) cs) = {c \<in> fset cs. hazard g c}" by auto
  then show ?thesis by (simp add: hazard_count_def fcard.rep_eq)
qed

lemma hazard_count_remove_safe:
  "\<not> hazard g c \<Longrightarrow> hazard_count g (cs |-| {|c|}) = hazard_count g cs"
proof -
  assume "\<not> hazard g c"
  then have "{x \<in> fset (cs |-| {|c|}). hazard g x} = {x \<in> fset cs. hazard g x}" by auto
  then show ?thesis by (simp only: hazard_count_card)
qed

lemma hazard_count_insert_mine:
  assumes "hazard g c" "c |\<notin>| cs"
  shows "hazard_count g (finsert c cs) = hazard_count g cs + 1"
proof -
  from assms have "{x \<in> fset (finsert c cs). hazard g x} = insert c {x \<in> fset cs. hazard g x}"
    by auto
  moreover have "c \<notin> {x \<in> fset cs. hazard g x}" using assms by simp
  moreover have "finite {x \<in> fset cs. hazard g x}" by simp
  ultimately show ?thesis by (simp only: hazard_count_card) simp
qed

lemma hazard_count_diff:
  assumes "a |\<subseteq>| b"
  shows "hazard_count g (b |-| a) = hazard_count g b - hazard_count g a"
proof -
  have "{x \<in> fset (b |-| a). hazard g x} = {x \<in> fset b. hazard g x} - {x \<in> fset a. hazard g x}"
    by auto
  moreover have "{x \<in> fset a. hazard g x} \<subseteq> {x \<in> fset b. hazard g x}"
    using assms by auto
  moreover have "finite {x \<in> fset a. hazard g x}" "finite {x \<in> fset b. hazard g x}" by simp_all
  ultimately show ?thesis
    by (simp only: hazard_count_card) (simp add: card_Diff_subset card_mono of_nat_diff)
qed

lemma hazard_count_bounds: "0 \<le> hazard_count g cs \<and> hazard_count g cs \<le> int (fcard cs)"
proof -
  have "card {x \<in> fset cs. hazard g x} \<le> card (fset cs)"
    by (rule card_mono) auto
  then show ?thesis by (simp add: hazard_count_card fcard.rep_eq)
qed

lemma hazard_count_full:
  assumes "hazard_count g cs = int (fcard cs)" "c |\<in>| cs"
  shows "hazard g c"
proof -
  have "card {x \<in> fset cs. hazard g x} = card (fset cs)"
    using assms(1) by (simp add: hazard_count_card fcard.rep_eq)
  moreover have "{x \<in> fset cs. hazard g x} \<subseteq> fset cs" by auto
  ultimately have "{x \<in> fset cs. hazard g x} = fset cs"
    by (simp add: card_subset_eq)
  with assms(2) show ?thesis by auto
qed

lemma hazard_count_zero:
  assumes "hazard_count g cs = 0" "c |\<in>| cs"
  shows "\<not> hazard g c"
proof -
  have "card {x \<in> fset cs. hazard g x} = 0"
    using assms(1) by (simp add: hazard_count_card)
  then have "{x \<in> fset cs. hazard g x} = {}" by simp
  with assms(2) show ?thesis by blast
qed

lemma hazard_count_empty [simp]: "hazard_count g {||} = 0"
  by (simp add: hazard_count_card)

lemma sentence_true_mark_safe:
  "\<not> hazard g c \<Longrightarrow> sentence_true g s \<Longrightarrow> sentence_true g (sentence_mark_safe c s)"
  by (simp add: sentence_true_def sentence_mark_safe_def hazard_count_remove_safe)

lemma sentence_true_mark_mine:
  "hazard g c \<Longrightarrow> sentence_true g s \<Longrightarrow> sentence_true g (sentence_mark_mine c s)"
  by (simp add: sentence_true_def sentence_mark_mine_def hazard_count_insert_mine)

lemma sound_mark_safe: "\<not> hazard g c \<Longrightarrow> sound g st \<Longrightarrow> sound g (mark_safe c st)"
  by (auto simp: sound_def list_all_iff sentence_true_mark_safe)

lemma sound_mark_mine: "hazard g c \<Longrightarrow> sound g st \<Longrightarrow> sound g (mark_mine c st)"
  by (auto simp: sound_def list_all_iff sentence_true_mark_mine)

lemma sound_fold_mark_safe:
  "\<forall>c \<in> set cs. \<not> hazard g c \<Longrightarrow> sound g st \<Longrightarrow> sound g (fold mark_safe cs st)"
  by (induction cs arbitrary: st) (simp_all add: sound_mark_safe)

lemma sound_fold_mark_mine:
  "\<forall>c \<in> set cs. hazard g c \<Longrightarrow> sound g st \<Longrightarrow> sound g (fold mark_mine cs st)"
  by (induction cs arbitrary: st) (simp_all add: sound_mark_mine)

lemma set_sorted_list_of_fset [simp]: "set (sorted_list_of_fset cs) = fset cs"
  by (simp add: sorted_list_of_fset.rep_eq)

lemma sound_mark_safes_of:
  "\<forall>c. c |\<in>| cs \<longrightarrow> \<not> hazard g c \<Longrightarrow> sound g st \<Longrightarrow> sound g (mark_safes_of cs st)"
  unfolding mark_safes_of_def by (rule sound_fold_mark_safe) auto

lemma sound_mark_mines_of:
  "\<forall>c. c |\<in>| cs \<longrightarrow> hazard g c \<Longrightarrow> sound g st \<Longrightarrow> sound g (mark_mines_of cs st)"
  unfolding mark_mines_of_def by (rule sound_fold_mark_mine) auto

lemma known_mines_hazard:
  "sentence_true g s \<Longrightarrow> c |\<in>| known_mines s \<Longrightarrow> hazard g c"
  by (auto simp: known_mines_def sentence_true_def split: if_splits intro: hazard_count_full)

lemma known_safes_safe:
  "sentence_true g s \<Longrightarrow> c |\<in>| known_safes s \<Longrightarrow> \<not> hazard g c"
  by (auto simp: known_safes_def sentence_true_def split: if_splits dest: hazard_count_zero)

lemma sound_nth: "sound g st \<Longrightarrow> i < length (knowledge st) \<Longrightarrow> sentence_true g (knowledge st ! i)"
  by (simp add: sound_def list_all_length)

lemma sound_mark_mines_loop: "sound g st \<Longrightarrow> sound g (mark_mines_loop i st)"
proof (induction i st rule: mark_mines_loop.induct)
  case (1 i st)
  show ?case
  proof (cases "i < length (knowledge st)")
    case True
    have "sound g (mark_mines_of (known_mines (knowledge st ! i)) st)"
      using sound_nth [OF "1.prems" True] "1.prems"
      by (blast intro: sound_mark_mines_of known_mines_hazard)
    with "1.IH" [OF True] True show ?thesis
      by (subst mark_mines_loop.simps) simp
  next
    case False
    with "1.prems" show ?thesis by (subst mark_mines_loop.simps) simp
  qed
qed

lemma sound_mark_safes_loop: "sound g st \<Longrightarrow> sound g (mark_safes_loop i st)"
proof (induction i st rule: mark_safes_loop.induct)
  case (1 i st)
  show ?case
  proof (cases "i < length (knowledge st)")
    case True
    have "sound g (mark_safes_of (known_safes (knowledge st ! i)) st)"
      using sound_nth [OF "1.prems" True] "1.prems"
      by (blast intro: sound_mark_safes_of dest: known_safes_safe)
    with "1.IH" [OF True] True show ?thesis
      by (subst mark_safes_loop.simps) simp
  next
    case False
    with "1.prems" show ?thesis by (subst mark_safes_loop.simps) simp
  qed
qed

lemma set_list_remove: "set (list_remove x ys) \<subseteq> set ys"
  by (induction ys) auto

lemma sound_subset_step:
  assumes "sound g st" "sentence_true g s1" "sentence_true g s2"
  shows "sound g (subset_step s1 s2 st)"
proof -
  have "sentence_true g \<lparr>ident = k, cells = cells s2 |-| cells s1, count = count s2 - count s1\<rparr>"
    if "cells s1 |\<subseteq>| cells s2" for k
    using assms(2,3) that by (simp add: sentence_true_def hazard_count_diff)
  moreover have "list_all (sentence_true g) (list_remove s2 (knowledge st))"
    using assms(1) set_list_remove [of s2 "knowledge st"] by (auto simp: sound_def list_all_iff)
  ultimately show ?thesis
    using assms(1) by (auto simp: subset_step_def Let_def sound_def)
qed

lemma sound_subset_inner:
  assumes "subset_inner s1 j st = Some st'"
  shows "sound g st \<Longrightarrow> sentence_true g s1 \<Longrightarrow> sound g st'"
  using assms
proof (induction s1 j st st' rule: subset_inner.raw_induct [rotated 1, consumes 1])
  case (1 inner s1 j st st')
  show ?case
  proof (cases "j < length (knowledge st)")
    case True
    with 1(2) have a: "inner s1 (Suc j) (subset_step s1 (knowledge st ! j) st) = Some st'" by simp
    have "sound g (subset_step s1 (knowledge st ! j) st)"
      using 1(3,4) sound_nth [OF 1(3) True] by (rule sound_subset_step)
    from 1(1) [OF a this 1(4)] show ?thesis .
  next
    case False
    with 1(2,3) show ?thesis by simp
  qed
qed

lemma sound_subset_outer:
  assumes "subset_outer i st = Some st'"
  shows "sound g st \<Longrightarrow> sound g st'"
  using assms
proof (induction i st st' rule: subset_outer.raw_induct [rotated 1, consumes 1])
  case (1 outer i st st')
  show ?case
  proof (cases "i < length (knowledge st)")
    case True
    with 1(2) obtain st1 where a: "subset_inner (knowledge st ! i) 0 st = Some st1"
      and b: "outer (Suc i) st1 = Some st'"
      by (auto simp: bind_eq_Some_conv)
    have "sound g st1"
      using sound_subset_inner [OF a 1(3) sound_nth [OF 1(3) True]] .
    from 1(1) [OF b this] show ?thesis .
  next
    case False
    with 1(2,3) show ?thesis by simp
  qed
qed

lemma surrounding_count:
  assumes "sound g st" "on_board g cell"
  shows "hazard_count g (get_surrounding_cells st cell) = nearby_mines g cell"
proof -
  obtain r c where cell: "cell = (r, c)" by (cases cell)
  from assms(1) have h: "height st = board_height g" and w: "width st = board_width g"
    and safe: "\<And>x. x |\<in>| safes st \<Longrightarrow> \<not> hazard g x"
    by (auto simp: sound_def)
  from assms(2) have b: "0 \<le> r" "r < board_height g" "0 \<le> c" "c < board_width g"
    by (simp_all add: on_board_def cell)
  define P where "P = (\<lambda>(i, j). (i, j) \<noteq> cell \<and> 0 \<le> i \<and> i < board_height g \<and> 0 \<le> j
      \<and> j < board_width g \<and> board g ! nat i ! nat j)"
  define xs where "xs = List.product [r - 1 .. r + 1] [c - 1 .. c + 1]"
  have d: "distinct xs" by (simp add: xs_def distinct_product)
  have n: "nearby_mines g cell = int (card ({x. P x} \<inter> set xs))"
    unfolding nearby_mines_def P_def [symmetric]
    by (simp add: cell xs_def [symmetric] distinct_length_filter [OF d])
  have "{x \<in> fset (get_surrounding_cells st cell). hazard g x} = {x. P x} \<inter> set xs"
    using b safe
    by (auto simp: get_surrounding_cells_def cell h w P_def xs_def hazard_def on_board_def
        is_mine_def Let_def fset_of_list.rep_eq split: if_splits)
  then show ?thesis by (simp add: hazard_count_card n)
qed

lemma drop_list_remove:
  "j < length ys \<Longrightarrow> sentence_eq (ys ! j) x \<Longrightarrow>
     drop (Suc j) (list_remove x ys) = drop (Suc (Suc j)) ys"
proof (induction ys arbitrary: j)
  case Nil
  then show ?case by simp
next
  case (Cons y ys)
  show ?case
  proof (cases "sentence_eq y x")
    case True
    then show ?thesis by simp
  next
    case False
    with Cons.prems obtain j' where j: "j = Suc j'" by (cases j) auto
    with Cons.prems have "j' < length ys" "sentence_eq (ys ! j') x" by simp_all
    from Cons.IH [OF this] False show ?thesis by (simp add: j)
  qed
qed

lemma sum_drop_Suc_le:
  "sum_list (map (f :: 'a \<Rightarrow> nat) (drop (Suc n) xs)) \<le> sum_list (map f (drop n xs))"
proof (cases "n < length xs")
  case True
  then show ?thesis by (simp flip: Cons_nth_drop_Suc)
next
  case False
  then show ?thesis by simp
qed

lemma sentence_eq_refl [simp]: "sentence_eq s s"
  by (simp add: sentence_eq_def)

lemma list_contains_nth: "j < length ys \<Longrightarrow> sentence_eq (ys ! j) x \<Longrightarrow> list_contains ys x"
  by (auto simp: list_contains_def list_ex_iff)

lemma inner_measure_decreases:
  assumes c: "cells s1 \<noteq> {||} \<or> count s1 = 0" and j: "j < length (knowledge st)"
  shows "inner_measure s1 (Suc j) (subset_step s1 (knowledge st ! j) st) < inner_measure s1 j st"
proof -
  define K where "K = knowledge st"
  define s2 where "s2 = K ! j"
  have split: "drop j K = s2 # drop (Suc j) K"
    using j by (simp add: K_def s2_def Cons_nth_drop_Suc)
  have base: "sum_list (map (weight s1) (drop (Suc j) K)) < sum_list (map (weight s1) (drop j K))"
    by (simp add: split weight_def)
  have "knowledge (subset_step s1 s2 st) = K
      \<or> (sentence_eq s1 s2 \<and> knowledge (subset_step s1 s2 st) = list_remove s2 K)
      \<or> (\<not> sentence_eq s1 s2 \<and> cells s1 |\<subseteq>| cells s2
         \<and> \<not> list_contains K \<lparr>ident = fresh st, cells = cells s2 |-| cells s1,
                              count = count s2 - count s1\<rparr>
         \<and> knowledge (subset_step s1 s2 st) =
           K @ [\<lparr>ident = fresh st, cells = cells s2 |-| cells s1, count = count s2 - count s1\<rparr>])"
    unfolding subset_step_def Let_def K_def by simp
  then consider (same) "knowledge (subset_step s1 s2 st) = K"
    | (removed) "sentence_eq s1 s2" "knowledge (subset_step s1 s2 st) = list_remove s2 K"
    | (added) "\<not> sentence_eq s1 s2" "cells s1 |\<subseteq>| cells s2"
        "\<not> list_contains K \<lparr>ident = fresh st, cells = cells s2 |-| cells s1,
                              count = count s2 - count s1\<rparr>"
        "knowledge (subset_step s1 s2 st) =
           K @ [\<lparr>ident = fresh st, cells = cells s2 |-| cells s1, count = count s2 - count s1\<rparr>]"
    by blast
  then show ?thesis
  proof cases
    case same
    with base show ?thesis by (simp add: inner_measure_def K_def s2_def)
  next
    case removed
    have "drop (Suc j) (list_remove s2 K) = drop (Suc (Suc j)) K"
      using j by (intro drop_list_remove) (simp_all add: K_def s2_def)
    moreover have "sum_list (map (weight s1) (drop (Suc (Suc j)) K))
                   \<le> sum_list (map (weight s1) (drop (Suc j) K))"
      by (rule sum_drop_Suc_le)
    ultimately show ?thesis
      using base removed(2) by (simp add: inner_measure_def K_def s2_def)
  next
    case added
    have ne: "cells s1 \<noteq> {||}"
    proof
      assume e: "cells s1 = {||}"
      with c have "count s1 = 0" by simp
      with e have "sentence_eq (K ! j) \<lparr>ident = fresh st, cells = cells s2 |-| cells s1,
                              count = count s2 - count s1\<rparr>"
        by (simp add: sentence_eq_def s2_def)
      with added(3) j show False by (auto dest: list_contains_nth simp: K_def)
    qed
    then have "\<not> cells s1 |\<subseteq>| cells s2 |-| cells s1" by auto
    then have w: "weight s1 \<lparr>ident = fresh st, cells = cells s2 |-| cells s1,
                              count = count s2 - count s1\<rparr> = 1"
      by (simp add: weight_def)
    have "weight s1 s2 = 2" using added(2) by (simp add: weight_def)
    with w j show ?thesis
      by (simp add: inner_measure_def added(4) split flip: K_def s2_def)
  qed
qed

lemma subset_inner_terminates:
  assumes "cells s1 \<noteq> {||} \<or> count s1 = 0"
  shows "\<exists>st'. subset_inner s1 j st = Some st'"
proof (induction "inner_measure s1 j st" arbitrary: j st rule: less_induct)
  case less
  show ?case
  proof (cases "j < length (knowledge st)")
    case True
    from less [OF inner_measure_decreases [OF assms True]] True
    show ?thesis by (subst subset_inner.simps) simp
  next
    case False
    then show ?thesis by (subst subset_inner.simps) simp
  qed
qed

lemma finite_missing [simp]: "finite (missing U K)"
  by (simp add: missing_def)

lemma length_list_remove:
  "list_contains ys x \<Longrightarrow> Suc (length (list_remove x ys)) = length ys"
  by (induction ys) (auto simp: list_contains_def)

lemma set_list_remove_rest:
  "s \<in> set ys \<Longrightarrow> s \<in> set (list_remove x ys) \<or> sentence_eq s x"
  by (induction ys) (auto split: if_splits)

lemma missing_list_remove: "missing U (list_remove x ys) \<subseteq> insert (cells x) (missing U ys)"
proof
  fix S assume a: "S \<in> missing U (list_remove x ys)"
  show "S \<in> insert (cells x) (missing U ys)"
  proof (cases "S \<in> cells ` set ys")
    case True
    then obtain s where s: "s \<in> set ys" "S = cells s" by auto
    from set_list_remove_rest [OF s(1), of x] a s(2) have "sentence_eq s x"
      by (auto simp: missing_def)
    with s(2) show ?thesis by (simp add: sentence_eq_def)
  next
    case False
    with a show ?thesis by (simp add: missing_def)
  qed
qed

lemma budget_step:
  assumes snd: "sound g st" and wi: "within U st" and t1: "sentence_true g s1"
    and j: "j < length (knowledge st)"
  shows "within U (subset_step s1 (knowledge st ! j) st)
       \<and> budget U (subset_step s1 (knowledge st ! j) st) \<le> budget U st"
proof -
  define K where "K = knowledge st"
  define s2 where "s2 = K ! j"
  define new where "new = \<lparr>ident = fresh st, cells = cells s2 |-| cells s1,
                              count = count s2 - count s1\<rparr>"
  have s2K: "s2 \<in> set K" using j by (simp add: s2_def K_def)
  have t2: "sentence_true g s2" using sound_nth [OF snd j] by (simp add: s2_def K_def)
  have "subset_step s1 s2 st = st
      \<or> (sentence_eq s1 s2 \<and> subset_step s1 s2 st = st\<lparr>knowledge := list_remove s2 K\<rparr>)
      \<or> (cells s1 |\<subseteq>| cells s2 \<and> \<not> list_contains K new
         \<and> subset_step s1 s2 st = st\<lparr>knowledge := K @ [new], fresh := Suc (fresh st)\<rparr>)"
    unfolding subset_step_def Let_def K_def new_def by simp
  then consider (same) "subset_step s1 s2 st = st"
    | (removed) "subset_step s1 s2 st = st\<lparr>knowledge := list_remove s2 K\<rparr>"
    | (added) "cells s1 |\<subseteq>| cells s2" "\<not> list_contains K new"
        "subset_step s1 s2 st = st\<lparr>knowledge := K @ [new], fresh := Suc (fresh st)\<rparr>"
    by blast
  then have "within U (subset_step s1 s2 st) \<and> budget U (subset_step s1 s2 st) \<le> budget U st"
  proof cases
    case same
    with wi show ?thesis by simp
  next
    case removed
    have w: "within U (st\<lparr>knowledge := list_remove s2 K\<rparr>)"
      using wi set_list_remove [of s2 K] by (auto simp: within_def K_def)
    have "list_contains K s2"
      unfolding list_contains_def list_ex_iff using s2K sentence_eq_refl by blast
    then have l: "Suc (length (list_remove s2 K)) = length K" by (rule length_list_remove)
    have "card (missing U (list_remove s2 K)) \<le> card (insert (cells s2) (missing U K))"
      by (rule card_mono) (simp_all add: missing_list_remove)
    also have "\<dots> \<le> Suc (card (missing U K))" by (simp add: card_insert_le_m1)
    finally have "length (list_remove s2 K) + card (missing U (list_remove s2 K))
                  \<le> length K + card (missing U K)"
      using l by simp
    with w show ?thesis by (simp add: removed budget_def K_def)
  next
    case added
    have sub: "cells new |\<subseteq>| U"
      using wi s2K by (auto simp: new_def within_def K_def)
    have tn: "sentence_true g new"
      using t1 t2 added(1) by (simp add: new_def sentence_true_def hazard_count_diff)
    have notin: "cells new \<notin> cells ` set K"
    proof
      assume "cells new \<in> cells ` set K"
      then obtain e where e: "e \<in> set K" "cells e = cells new" by auto
      from snd e(1) have "sentence_true g e" by (simp add: sound_def list_all_iff K_def)
      with tn e(2) have "sentence_eq e new" by (simp add: sentence_true_def sentence_eq_def)
      with e(1) added(2) show False by (auto simp: list_contains_def list_ex_iff)
    qed
    have m: "missing U K = insert (cells new) (missing U (K @ [new]))"
      using sub notin by (auto simp: missing_def)
    have "cells new \<notin> missing U (K @ [new])" by (simp add: missing_def)
    with m have "card (missing U K) = Suc (card (missing U (K @ [new])))" by simp
    moreover have "within U (st\<lparr>knowledge := K @ [new], fresh := Suc (fresh st)\<rparr>)"
      using wi sub by (auto simp: within_def K_def)
    ultimately show ?thesis by (simp add: added(3) budget_def K_def)
  qed
  then show ?thesis by (simp add: s2_def K_def)
qed

lemma budget_subset_inner:
  assumes "subset_inner s1 j st = Some st'"
  shows "sound g st \<Longrightarrow> within U st \<Longrightarrow> sentence_true g s1
          \<Longrightarrow> within U st' \<and> budget U st' \<le> budget U st"
  using assms
proof (induction s1 j st st' rule: subset_inner.raw_induct [rotated 1, consumes 1])
  case (1 inner s1 j st st')
  show ?case
  proof (cases "j < length (knowledge st)")
    case True
    with 1(2) have a: "inner s1 (Suc j) (subset_step s1 (knowledge st ! j) st) = Some st'" by simp
    have s: "sound g (subset_step s1 (knowledge st ! j) st)"
      using 1(3,5) sound_nth [OF 1(3) True] by (rule sound_subset_step)
    from budget_step [OF 1(3,4,5) True]
    have w: "within U (subset_step s1 (knowledge st ! j) st)"
      and b: "budget U (subset_step s1 (knowledge st ! j) st) \<le> budget U st" by simp_all
    from 1(1) [OF a s w 1(5)] b show ?thesis by simp
  next
    case False
    with 1(2,4) show ?thesis by simp
  qed
qed

lemma true_sentence_shape: "sentence_true g s \<Longrightarrow> cells s \<noteq> {||} \<or> count s = 0"
  by (auto simp: sentence_true_def)

lemma subset_outer_terminates:
  assumes "sound g st" "within U st"
  shows "\<exists>st'. subset_outer i st = Some st'"
  using assms
proof (induction "budget U st - i" arbitrary: i st rule: less_induct)
  case less
  show ?case
  proof (cases "i < length (knowledge st)")
    case True
    have t: "sentence_true g (knowledge st ! i)" by (rule sound_nth [OF less.prems(1) True])
    from subset_inner_terminates [OF true_sentence_shape [OF t]]
    obtain st1 where a: "subset_inner (knowledge st ! i) 0 st = Some st1" by blast
    have s1: "sound g st1" by (rule sound_subset_inner [OF a less.prems(1) t])
    from budget_subset_inner [OF a less.prems t]
    have w1: "within U st1" and b1: "budget U st1 \<le> budget U st" by simp_all
    have "i < budget U st" using True by (simp add: budget_def)
    with b1 have "budget U st1 - Suc i < budget U st - i" by arith
    from less.hyps [OF this s1 w1] obtain st' where "subset_outer (Suc i) st1 = Some st'" by blast
    with a True show ?thesis by (subst subset_outer.simps) simp
  next
    case False
    then show ?thesis by (subst subset_outer.simps) simp
  qed
qed

lemma within_all_cells: "within (all_cells (knowledge st)) st"
proof -
  have "s \<in> set K \<Longrightarrow> cells s |\<subseteq>| all_cells K" for s K
    by (induction K) (auto simp: all_cells_def)
  then show ?thesis by (simp add: within_def)
qed

lemma sound_init: "sound g (init_ai (board_height g) (board_width g))"
  by (simp add: sound_def init_ai_def)

lemma add_knowledge_total:
  assumes s: "sound g st" and t: "truthful g (cell, cnt)"
  shows "\<exists>st'. add_knowledge cell cnt st = Some st' \<and> sound g st'"
proof -
  define sc where "sc = get_surrounding_cells st cell"
  define st2 where "st2 = mark_safe cell (st\<lparr>moves_made := finsert cell (moves_made st)\<rparr>)"
  define st3 where "st3 = st2\<lparr>knowledge := knowledge st2 @
                        [\<lparr>ident = fresh st2, cells = sc, count = cnt\<rparr>],
                    fresh := Suc (fresh st2)\<rparr>"
  define st4 where "st4 = mark_safes_loop 0 (mark_mines_loop 0 st3)"
  define st5 where "st5 = (if cnt = 0 then mark_safes_of sc st4 else st4)"
  from t have ob: "on_board g cell" and nm: "\<not> hazard g cell" and c: "cnt = nearby_mines g cell"
    by (simp_all add: truthful_def hazard_def)
  have hc: "hazard_count g sc = cnt"
    unfolding sc_def c by (rule surrounding_count [OF s ob])
  have "sound g (st\<lparr>moves_made := finsert cell (moves_made st)\<rparr>)"
    using s by (simp add: sound_def)
  then have s2: "sound g st2" unfolding st2_def by (rule sound_mark_safe [OF nm])
  have s3: "sound g st3"
    using s2 hc by (simp add: st3_def sound_def sentence_true_def)
  have s4: "sound g st4"
    unfolding st4_def by (intro sound_mark_safes_loop sound_mark_mines_loop s3)
  have s5: "sound g st5"
  proof (cases "cnt = 0")
    case True
    with hc have "\<forall>x. x |\<in>| sc \<longrightarrow> \<not> hazard g x" by (auto dest: hazard_count_zero)
    from sound_mark_safes_of [OF this s4] True show ?thesis by (simp add: st5_def)
  next
    case False
    with s4 show ?thesis by (simp add: st5_def)
  qed
  from subset_outer_terminates [OF s5 within_all_cells]
  obtain st6 where o: "subset_outer 0 st5 = Some st6" by blast
  have s6: "sound g st6" by (rule sound_subset_outer [OF o s5])
  have "sound g (mark_safes_loop 0 (mark_mines_loop 0 st6))"
    by (intro sound_mark_safes_loop sound_mark_mines_loop s6)
  moreover have "add_knowledge cell cnt st = Some (mark_safes_loop 0 (mark_mines_loop 0 st6))"
    unfolding add_knowledge_def Let_def sc_def [symmetric] st2_def [symmetric]
      st3_def [symmetric] st4_def [symmetric] st5_def [symmetric]
    by (simp add: o)
  ultimately show ?thesis by simp
qed

lemma add_knowledge_seq_total:
  "sound g st \<Longrightarrow> list_all (truthful g) obs
     \<Longrightarrow> \<exists>st'. add_knowledge_seq obs st = Some st' \<and> sound g st'"
proof (induction obs arbitrary: st)
  case Nil
  then show ?case by simp
next
  case (Cons ob obs)
  from Cons.prems(2) have "truthful g (fst ob, snd ob)" by simp
  from add_knowledge_total [OF Cons.prems(1) this]
  obtain st1 where a: "add_knowledge (fst ob) (snd ob) st = Some st1" and s1: "sound g st1"
    by blast
  from Cons.IH [OF s1] Cons.prems(2) obtain st' where
    "add_knowledge_seq obs st1 = Some st'" "sound g st'" by auto
  with a show ?case by simp
qed

lemma runaway_step:
  assumes "runaway s1 j st"
  shows "runaway s1 (Suc j) (subset_step s1 (knowledge st ! j) st)"
proof -
  define K where "K = knowledge st"
  define s2 where "s2 = K ! j"
  define new where "new = \<lparr>ident = fresh st, cells = cells s2 |-| cells s1,
                              count = count s2 - count s1\<rparr>"
  from assms have a: "cells s1 = {||}" "0 < count s1" "Suc j = length K"
    "\<And>e. e \<in> set K \<Longrightarrow> cells e = {||} \<and> count s2 \<le> count e"
    "count s2 < 0" "ident s2 \<noteq> ident s1" "ident s1 < fresh st"
    by (simp_all add: runaway_def K_def s2_def)
  have s2K: "s2 \<in> set K" using a(3) by (simp add: s2_def)
  have c2: "cells s2 = {||}" using a(4) [OF s2K] by simp
  have neq: "\<not> sentence_eq s1 s2" using a(2,5) by (auto simp: sentence_eq_def)
  have nc: "\<not> list_contains K new"
  proof
    assume "list_contains K new"
    then obtain e where e: "e \<in> set K" "count e = count s2 - count s1"
      by (auto simp: list_contains_def list_ex_iff sentence_eq_def new_def)
    with a(4) [OF e(1)] a(2) show False by simp
  qed
  have step: "subset_step s1 s2 st = st\<lparr>knowledge := K @ [new], fresh := Suc (fresh st)\<rparr>"
  proof -
    have n: "new = \<lparr>ident = fresh st, cells = {||}, count = count s2 - count s1\<rparr>"
      by (simp add: new_def a(1) c2)
    show ?thesis
      using a(6) neq nc a(1) c2 unfolding n
      by (simp add: subset_step_def Let_def flip: K_def)
  qed
  have nth: "(K @ [new]) ! Suc j = new" using a(3) by (simp add: nth_append)
  have "runaway s1 (Suc j) (st\<lparr>knowledge := K @ [new], fresh := Suc (fresh st)\<rparr>)"
    unfolding runaway_def
    using a by (auto simp: nth new_def c2 dest!: a(4))
  then show ?thesis unfolding step [symmetric] by (simp add: s2_def K_def)
qed

lemma runaway_never_returns:
  assumes "subset_inner s1 j st = Some st'"
  shows "\<not> runaway s1 j st"
  using assms
proof (induction s1 j st st' rule: subset_inner.raw_induct [rotated 1, consumes 1])
  case (1 inner s1 j st st')
  show ?case
  proof
    assume r: "runaway s1 j st"
    then have "j < length (knowledge st)" by (auto simp: runaway_def)
    with 1(2) have "inner s1 (Suc j) (subset_step s1 (knowledge st ! j) st) = Some st'" by simp
    from 1(1) [OF this] runaway_step [OF r] show False by simp
  qed
qed

lemma runaway_None: "runaway s1 j st \<Longrightarrow> subset_inner s1 j st = None"
  using runaway_never_returns [of s1 j st] by (cases "subset_inner s1 j st") auto

section \<open>No sentence is discarded\<close>

lemma marking_mono:
  "marking M S G \<Longrightarrow> M |\<subseteq>| M' \<Longrightarrow> S |\<subseteq>| S' \<Longrightarrow> marking M' S' G"
  by (induction rule: marking.induct) (auto intro: marking.intros)

lemma marking_comp:
  "marking M S H \<Longrightarrow> marking M S G \<Longrightarrow> marking M S (\<lambda>s. H (G s))"
  by (induction rule: marking.induct) (auto intro: marking.intros)

lemma sentence_eq_sym: "sentence_eq a b \<Longrightarrow> sentence_eq b a"
  by (simp add: sentence_eq_def)

lemma sentence_eq_trans: "sentence_eq a b \<Longrightarrow> sentence_eq b c \<Longrightarrow> sentence_eq a c"
  by (simp add: sentence_eq_def)

lemma marking_eq:
  "marking M S G \<Longrightarrow> sentence_eq a b \<Longrightarrow> sentence_eq (G a) (G b)"
  by (induction rule: marking.induct)
     (auto simp: sentence_eq_def sentence_mark_mine_def sentence_mark_safe_def)

lemma marking_cells:
  "marking M S G \<Longrightarrow> cells (G s) |\<subseteq>| cells s |\<union>| M"
  by (induction rule: marking.induct)
     (auto simp: sentence_mark_mine_def sentence_mark_safe_def)

lemma marked_refl: "marked st st"
  unfolding marked_def by (auto intro: exI [of _ "\<lambda>s. s"] marking.keep)

lemma marked_trans:
  assumes "marked a b" "marked b c"
  shows "marked a c"
proof -
  from assms(1) obtain G where G: "marking (mines b) (safes b) G" "knowledge b = map G (knowledge a)"
    and ab: "mines a |\<subseteq>| mines b" "safes a |\<subseteq>| safes b"
    by (auto simp: marked_def)
  from assms(2) obtain H where H: "marking (mines c) (safes c) H" "knowledge c = map H (knowledge b)"
    and bc: "mines b |\<subseteq>| mines c" "safes b |\<subseteq>| safes c"
    by (auto simp: marked_def)
  have "marking (mines c) (safes c) G" using G(1) bc by (rule marking_mono)
  with H(1) have "marking (mines c) (safes c) (\<lambda>s. H (G s))" by (rule marking_comp)
  moreover have "knowledge c = map (\<lambda>s. H (G s)) (knowledge a)"
    by (simp add: H(2) G(2))
  ultimately show ?thesis using ab bc unfolding marked_def by blast
qed

lemma marked_mark_mine: "marked st (mark_mine c st)"
proof -
  have "marking (mines (mark_mine c st)) (safes (mark_mine c st)) (\<lambda>s. sentence_mark_mine c s)"
    by (rule marking.mine [OF marking.keep]) simp
  then show ?thesis unfolding marked_def by (auto intro: exI [of _ "sentence_mark_mine c"])
qed

lemma marked_mark_safe: "marked st (mark_safe c st)"
proof -
  have "marking (mines (mark_safe c st)) (safes (mark_safe c st)) (\<lambda>s. sentence_mark_safe c s)"
    by (rule marking.safe [OF marking.keep]) simp
  then show ?thesis unfolding marked_def by (auto intro: exI [of _ "sentence_mark_safe c"])
qed

lemma marked_fold_mark_mine: "marked st (fold mark_mine cs st)"
proof (induction cs arbitrary: st)
  case Nil
  show ?case by (simp add: marked_refl)
next
  case (Cons c cs)
  have "marked st (fold mark_mine cs (mark_mine c st))"
    by (rule marked_trans [OF marked_mark_mine Cons])
  then show ?case by simp
qed

lemma marked_fold_mark_safe: "marked st (fold mark_safe cs st)"
proof (induction cs arbitrary: st)
  case Nil
  show ?case by (simp add: marked_refl)
next
  case (Cons c cs)
  have "marked st (fold mark_safe cs (mark_safe c st))"
    by (rule marked_trans [OF marked_mark_safe Cons])
  then show ?case by simp
qed

lemma marked_mark_mines_loop: "marked st (mark_mines_loop i st)"
proof (induction i st rule: mark_mines_loop.induct)
  case (1 i st)
  show ?case
  proof (cases "i < length (knowledge st)")
    case True
    have "marked st (mark_mines_of (known_mines (knowledge st ! i)) st)"
      by (simp add: mark_mines_of_def marked_fold_mark_mine)
    from marked_trans [OF this "1.IH" [OF True]] True show ?thesis
      by (subst mark_mines_loop.simps) simp
  next
    case False
    then show ?thesis by (subst mark_mines_loop.simps) (simp add: marked_refl)
  qed
qed

lemma marked_mark_safes_loop: "marked st (mark_safes_loop i st)"
proof (induction i st rule: mark_safes_loop.induct)
  case (1 i st)
  show ?case
  proof (cases "i < length (knowledge st)")
    case True
    have "marked st (mark_safes_of (known_safes (knowledge st ! i)) st)"
      by (simp add: mark_safes_of_def marked_fold_mark_safe)
    from marked_trans [OF this "1.IH" [OF True]] True show ?thesis
      by (subst mark_safes_loop.simps) simp
  next
    case False
    then show ?thesis by (subst mark_safes_loop.simps) (simp add: marked_refl)
  qed
qed

lemma marked_deduction: "marked st (mark_safes_loop 0 (mark_mines_loop 0 st))"
  by (rule marked_trans [OF marked_mark_mines_loop marked_mark_safes_loop])

lemma list_remove_split:
  "list_contains ys x \<Longrightarrow>
     \<exists>us e vs. ys = us @ e # vs \<and> sentence_eq e x \<and> (\<forall>u \<in> set us. \<not> sentence_eq u x)
                \<and> list_remove x ys = us @ vs"
proof (induction ys)
  case Nil
  then show ?case by (simp add: list_contains_def)
next
  case (Cons y ys)
  show ?case
  proof (cases "sentence_eq y x")
    case True
    then have "y # ys = [] @ y # ys \<and> sentence_eq y x \<and> (\<forall>u \<in> set []. \<not> sentence_eq u x)
                \<and> list_remove x (y # ys) = [] @ ys" by simp
    then show ?thesis by blast
  next
    case False
    with Cons.prems have "list_contains ys x" by (simp add: list_contains_def)
    from Cons.IH [OF this] obtain us e vs where
      a: "ys = us @ e # vs" "sentence_eq e x" "\<forall>u \<in> set us. \<not> sentence_eq u x"
         "list_remove x ys = us @ vs" by blast
    with False have "y # ys = (y # us) @ e # vs \<and> sentence_eq e x
          \<and> (\<forall>u \<in> set (y # us). \<not> sentence_eq u x) \<and> list_remove x (y # ys) = (y # us) @ vs"
      by simp
    then show ?thesis by blast
  qed
qed

lemma mem_list_contains: "x \<in> set ys \<Longrightarrow> list_contains ys x"
  unfolding list_contains_def list_ex_iff by (rule bexI [of _ x]) simp_all

lemma values_kept_refl: "values_kept K K"
  unfolding values_kept_def by (simp add: mem_list_contains)

lemma values_kept_trans: "values_kept A B \<Longrightarrow> values_kept B C \<Longrightarrow> values_kept A C"
  unfolding values_kept_def list_contains_def list_ex_iff
  by (meson sentence_eq_trans)

lemma values_kept_append: "values_kept K (K @ [n])"
  unfolding values_kept_def by (simp add: mem_list_contains)

lemma kept_alive_start: "i < length K \<Longrightarrow> kept_alive (K ! i) 0 K"
  unfolding kept_alive_def by (intro disjI2 bexI [of _ "K ! i"]) simp_all

lemma kept_alive_next:
  assumes "kept_alive s1 j K"
  shows "kept_alive s1 (Suc j) (K @ ns)"
proof -
  have "set (take j K) \<subseteq> set (take (Suc j) (K @ ns))"
    by (metis Suc_n_not_le_n nat_le_linear set_take_subset_set_take take_append
        Un_upper1 set_append subset_trans)
  with assms show ?thesis unfolding kept_alive_def by auto
qed

lemma removal_keeps:
  assumes ka: "kept_alive s1 j K" and j: "j < length K"
    and eq: "sentence_eq s1 (K ! j)" and id: "ident s1 \<noteq> ident (K ! j)"
  shows "kept_alive s1 (Suc j) (list_remove (K ! j) K) \<and> values_kept K (list_remove (K ! j) K)"
proof -
  define s2 where "s2 = K ! j"
  have s2K: "s2 \<in> set K" using j by (simp add: s2_def)
  have "list_contains K s2"
    unfolding list_contains_def list_ex_iff using s2K sentence_eq_refl by blast
  from list_remove_split [OF this] obtain us e vs where
    sp: "K = us @ e # vs" "sentence_eq e s2" "\<forall>u \<in> set us. \<not> sentence_eq u s2"
        "list_remove s2 K = us @ vs" by blast
  have eq2: "sentence_eq s1 s2" using eq by (simp add: s2_def)
  have lj: "length us \<le> j"
  proof (rule ccontr)
    assume "\<not> length us \<le> j"
    then have "K ! j \<in> set us" by (simp add: sp(1) nth_append)
    with sp(3) have "\<not> sentence_eq (K ! j) s2" by blast
    then show False by (simp add: s2_def)
  qed
  show ?thesis
  proof (cases "length us = j")
    case True
    have e: "e = s2" unfolding s2_def sp(1) True [symmetric] by simp
    have tk: "take j K = us" using True by (simp add: sp(1))
    from ka obtain w where w: "sentence_eq w s1"
      "w \<in> set us \<or> (w \<in> set K \<and> ident w = ident s1)"
      unfolding kept_alive_def tk by blast
    have ws2: "sentence_eq w s2" using w(1) eq2 by (rule sentence_eq_trans)
    with sp(3) have "w \<notin> set us" by blast
    with w(2) have wK: "w \<in> set K" and wi: "ident w = ident s1" by auto
    from wi id have "w \<noteq> e" by (auto simp: e s2_def)
    with wK \<open>w \<notin> set us\<close> have wv: "w \<in> set vs" by (simp add: sp(1))
    have "kept_alive s1 (Suc j) (us @ vs)"
      unfolding kept_alive_def using wv w(1) wi by auto
    moreover have "values_kept K (us @ vs)"
      unfolding values_kept_def list_contains_def list_ex_iff
    proof
      fix x assume "x \<in> set K"
      then consider "x \<in> set (us @ vs)" | "x = e" by (auto simp: sp(1))
      then show "\<exists>y \<in> set (us @ vs). sentence_eq y x"
      proof cases
        case 1
        then show ?thesis using sentence_eq_refl by blast
      next
        case 2
        with ws2 wv show ?thesis by (auto simp: e)
      qed
    qed
    ultimately show ?thesis by (simp add: sp(4) flip: s2_def)
  next
    case False
    with lj have gt: "length us < j" by simp
    then obtain d where d: "j = Suc (length us + d)" by (metis less_iff_Suc_add)
    have dv: "d < length vs" using j by (simp add: sp(1) d)
    have s2v: "s2 = vs ! d" by (simp add: s2_def sp(1) d nth_append)
    have "d < length (take (Suc (Suc d)) vs)" using dv by simp
    then have "take (Suc (Suc d)) vs ! d \<in> set (take (Suc (Suc d)) vs)" by (rule nth_mem)
    then have "vs ! d \<in> set (take (Suc (Suc d)) vs)" by simp
    then have "s2 \<in> set (take (Suc j) (us @ vs))" by (simp add: s2v d)
    moreover have "sentence_eq s2 s1" using eq2 by (rule sentence_eq_sym)
    ultimately have "kept_alive s1 (Suc j) (us @ vs)" unfolding kept_alive_def by blast
    moreover have "values_kept K (us @ vs)"
      unfolding values_kept_def list_contains_def list_ex_iff
    proof
      fix x assume "x \<in> set K"
      then consider "x \<in> set (us @ vs)" | "x = e" by (auto simp: sp(1))
      then show "\<exists>y \<in> set (us @ vs). sentence_eq y x"
      proof cases
        case 1
        then show ?thesis using sentence_eq_refl by blast
      next
        case 2
        have "s2 \<in> set (us @ vs)" using dv by (simp add: s2v)
        moreover have "sentence_eq s2 x" using sp(2) by (simp add: 2 sentence_eq_sym)
        ultimately show ?thesis by blast
      qed
    qed
    ultimately show ?thesis by (simp add: sp(4) flip: s2_def)
  qed
qed

lemma step_keeps:
  assumes ka: "kept_alive s1 j (knowledge st)" and j: "j < length (knowledge st)"
  shows "kept_alive s1 (Suc j) (knowledge (subset_step s1 (knowledge st ! j) st))
       \<and> values_kept (knowledge st) (knowledge (subset_step s1 (knowledge st ! j) st))"
proof -
  define K where "K = knowledge st"
  define s2 where "s2 = K ! j"
  have "knowledge (subset_step s1 s2 st) = K
      \<or> (ident s1 \<noteq> ident s2 \<and> sentence_eq s1 s2
           \<and> knowledge (subset_step s1 s2 st) = list_remove s2 K)
      \<or> (\<exists>n. knowledge (subset_step s1 s2 st) = K @ [n])"
    unfolding subset_step_def Let_def K_def by simp
  then consider (same) "knowledge (subset_step s1 s2 st) = K"
    | (removed) "ident s1 \<noteq> ident s2" "sentence_eq s1 s2"
        "knowledge (subset_step s1 s2 st) = list_remove s2 K"
    | (added) n where "knowledge (subset_step s1 s2 st) = K @ [n]"
    by blast
  then have "kept_alive s1 (Suc j) (knowledge (subset_step s1 s2 st))
       \<and> values_kept K (knowledge (subset_step s1 s2 st))"
  proof cases
    case same
    from kept_alive_next [OF ka, of "[]"] show ?thesis
      by (simp add: same values_kept_refl K_def)
  next
    case removed
    have "kept_alive s1 (Suc j) (list_remove s2 K) \<and> values_kept K (list_remove s2 K)"
      using ka j removed(1,2) unfolding s2_def
      by (intro removal_keeps) (simp_all add: K_def)
    then show ?thesis by (simp only: removed(3))
  next
    case added
    from kept_alive_next [OF ka, of "[n]"] show ?thesis
      by (simp add: added values_kept_append K_def)
  qed
  then show ?thesis by (simp add: K_def s2_def)
qed

lemma subset_inner_keeps:
  assumes "subset_inner s1 j st = Some st'"
  shows "kept_alive s1 j (knowledge st) \<Longrightarrow> values_kept (knowledge st) (knowledge st')"
  using assms
proof (induction s1 j st st' rule: subset_inner.raw_induct [rotated 1, consumes 1])
  case (1 inner s1 j st st')
  show ?case
  proof (cases "j < length (knowledge st)")
    case True
    with 1(2) have a: "inner s1 (Suc j) (subset_step s1 (knowledge st ! j) st) = Some st'" by simp
    from step_keeps [OF 1(3) True]
    have k: "kept_alive s1 (Suc j) (knowledge (subset_step s1 (knowledge st ! j) st))"
      and v: "values_kept (knowledge st) (knowledge (subset_step s1 (knowledge st ! j) st))"
      by simp_all
    from values_kept_trans [OF v 1(1) [OF a k]] show ?thesis .
  next
    case False
    with 1(2) show ?thesis by (auto simp: values_kept_refl)
  qed
qed

lemma subset_outer_keeps:
  assumes "subset_outer i st = Some st'"
  shows "values_kept (knowledge st) (knowledge st')"
  using assms
proof (induction i st st' rule: subset_outer.raw_induct [rotated 1, consumes 1])
  case (1 outer i st st')
  show ?case
  proof (cases "i < length (knowledge st)")
    case True
    with 1(2) obtain st1 where a: "subset_inner (knowledge st ! i) 0 st = Some st1"
      and b: "outer (Suc i) st1 = Some st'"
      by (auto simp: bind_eq_Some_conv)
    from values_kept_trans [OF subset_inner_keeps [OF a kept_alive_start [OF True]] 1(1) [OF b]]
    show ?thesis .
  next
    case False
    with 1(2) show ?thesis by (auto simp: values_kept_refl)
  qed
qed

lemma add_knowledge_keeps:
  assumes r: "add_knowledge cell cnt st = Some st'"
  shows "\<exists>G. marking (mines st') (safes st') G
         \<and> (\<forall>e \<in> set (knowledge st).
               list_contains (knowledge st') (G (sentence_mark_safe cell e)))
         \<and> list_contains (knowledge st')
               (G \<lparr>ident = fresh st, cells = get_surrounding_cells st cell, count = cnt\<rparr>)"
proof -
  define sc where "sc = get_surrounding_cells st cell"
  define st2 where "st2 = mark_safe cell (st\<lparr>moves_made := finsert cell (moves_made st)\<rparr>)"
  define st3 where "st3 = st2\<lparr>knowledge := knowledge st2 @
                        [\<lparr>ident = fresh st2, cells = sc, count = cnt\<rparr>],
                    fresh := Suc (fresh st2)\<rparr>"
  define st4 where "st4 = mark_safes_loop 0 (mark_mines_loop 0 st3)"
  define st5 where "st5 = (if cnt = 0 then mark_safes_of sc st4 else st4)"
  from r obtain st6 where o: "subset_outer 0 st5 = Some st6"
    and r': "st' = mark_safes_loop 0 (mark_mines_loop 0 st6)"
    unfolding add_knowledge_def Let_def sc_def [symmetric] st2_def [symmetric]
      st3_def [symmetric] st4_def [symmetric] st5_def [symmetric]
    by auto
  have k3: "knowledge st3 = map (sentence_mark_safe cell) (knowledge st)
              @ [\<lparr>ident = fresh st, cells = sc, count = cnt\<rparr>]"
    by (simp add: st3_def st2_def)
  have "marked st4 st5"
    by (simp add: st5_def marked_refl mark_safes_of_def marked_fold_mark_safe)
  with marked_deduction [of st3] have "marked st3 st5"
    unfolding st4_def [symmetric] by (rule marked_trans)
  then obtain G1 where G1: "marking (mines st5) (safes st5) G1"
    "knowledge st5 = map G1 (knowledge st3)"
    by (auto simp: marked_def)
  from marked_deduction [of st6] obtain G2 where G2: "marking (mines st') (safes st') G2"
    "knowledge st' = map G2 (knowledge st6)"
    and up: "mines st6 |\<subseteq>| mines st'" "safes st6 |\<subseteq>| safes st'"
    unfolding r' [symmetric] by (auto simp: marked_def)
  from subset_outer_fields [OF o] have same: "mines st6 = mines st5" "safes st6 = safes st5"
    by simp_all
  have "marking (mines st') (safes st') G1"
    using G1(1) up unfolding same by (rule marking_mono)
  with G2(1) have G: "marking (mines st') (safes st') (\<lambda>s. G2 (G1 s))"
    by (rule marking_comp)
  have kept: "list_contains (knowledge st') (G2 (G1 e))" if "e \<in> set (knowledge st3)" for e
  proof -
    from that have "G1 e \<in> set (knowledge st5)" by (simp add: G1(2))
    with subset_outer_keeps [OF o] obtain e6 where
      e6: "e6 \<in> set (knowledge st6)" "sentence_eq e6 (G1 e)"
      by (auto simp: values_kept_def list_contains_def list_ex_iff)
    from e6(1) have "G2 e6 \<in> set (knowledge st')" by (simp add: G2(2))
    moreover have "sentence_eq (G2 e6) (G2 (G1 e))" using G2(1) e6(2) by (rule marking_eq)
    ultimately show ?thesis by (auto simp: list_contains_def list_ex_iff)
  qed
  have "\<forall>e \<in> set (knowledge st). list_contains (knowledge st') (G2 (G1 (sentence_mark_safe cell e)))"
    by (intro ballI kept) (simp add: k3)
  moreover have "list_contains (knowledge st')
      (G2 (G1 \<lparr>ident = fresh st, cells = sc, count = cnt\<rparr>))"
    by (rule kept) (simp add: k3)
  ultimately show ?thesis using G unfolding sc_def by blast
qed

section \<open>Marking a mine\<close>

text \<open>
  Claim C2, as amended. \<open>mark_mine\<close> does not take the cell out of the sentences: after
  the call every sentence of the knowledge base holds the cell. A sentence that held it
  already is unchanged; a sentence that did not hold it gains the cell and its count goes
  up by one. The list keeps its length.
\<close>

theorem mark_mine_adds:
  assumes "i < length (knowledge st)"
  shows "length (knowledge (mark_mine c st)) = length (knowledge st)
       \<and> c |\<in>| cells (knowledge (mark_mine c st) ! i)
       \<and> (if c |\<in>| cells (knowledge st ! i)
          then knowledge (mark_mine c st) ! i = knowledge st ! i
          else cells (knowledge (mark_mine c st) ! i) = finsert c (cells (knowledge st ! i))
             \<and> count (knowledge (mark_mine c st) ! i) = count (knowledge st ! i) + 1)"
  using assms by (simp add: sentence_mark_mine_def)

theorem mark_mine_adds_witness:
  "(0 :: nat) < length [\<lparr>ident = 0, cells = {|(0, 1)|}, count = 1\<rparr>,
                        \<lparr>ident = 1, cells = {|(0, 2), (0, 4)|}, count = 1\<rparr>]
   \<and> (0, 1) |\<in>| cells (knowledge (mark_mine (0, 1)
        \<lparr>height = 1, width = 5, moves_made = {|(0, 0), (0, 3)|}, mines = {|(0, 1)|},
         safes = {|(0, 0), (0, 3)|},
         knowledge = [\<lparr>ident = 0, cells = {|(0, 1)|}, count = 1\<rparr>,
                      \<lparr>ident = 1, cells = {|(0, 2), (0, 4)|}, count = 1\<rparr>],
         fresh = 2\<rparr>) ! 0)"
  using mark_mine_adds [of 0
        "\<lparr>height = 1, width = 5, moves_made = {|(0, 0), (0, 3)|}, mines = {|(0, 1)|},
         safes = {|(0, 0), (0, 3)|},
         knowledge = [\<lparr>ident = 0, cells = {|(0, 1)|}, count = 1\<rparr>,
                      \<lparr>ident = 1, cells = {|(0, 2), (0, 4)|}, count = 1\<rparr>],
         fresh = 2\<rparr>" "(0, 1)"]
  by simp

text \<open>
  The claim as stated fails in the second call of the run of claim C6, at the first
  \<open>mark_mine\<close> of its deduction pass: the cell \<open>(0, 1)\<close> stays in the first sentence,
  whose count stays 1, and it joins the second sentence, whose count goes from 1 to 2.
\<close>

theorem mark_mine_removes_counterexample:
  "knowledge (mark_mine (0, 1)
     \<lparr>height = 1, width = 5, moves_made = {|(0, 0), (0, 3)|}, mines = {|(0, 1)|},
      safes = {|(0, 0), (0, 3)|},
      knowledge = [\<lparr>ident = 0, cells = {|(0, 1)|}, count = 1\<rparr>,
                   \<lparr>ident = 1, cells = {|(0, 2), (0, 4)|}, count = 1\<rparr>],
      fresh = 2\<rparr>)
   = [\<lparr>ident = 0, cells = {|(0, 1)|}, count = 1\<rparr>,
      \<lparr>ident = 1, cells = {|(0, 1), (0, 2), (0, 4)|}, count = 2\<rparr>]"
  by (simp add: sentence_mark_mine_def)

section \<open>Sentences with an empty cell set\<close>

lemma first_probe_without_neighbours:
  assumes a: "knowledge st = [] \<and> get_surrounding_cells st cell = {||}"
  shows "add_knowledge cell cnt st =
          Some (st\<lparr>moves_made := finsert cell (moves_made st),
                   safes := finsert cell (safes st),
                   knowledge := [\<lparr>ident = fresh st, cells = {||}, count = cnt\<rparr>],
                   fresh := Suc (fresh st)\<rparr>)"
proof -
  define s where "s = \<lparr>ident = fresh st, cells = {||}, count = cnt\<rparr>"
  define st3 where "st3 = st\<lparr>moves_made := finsert cell (moves_made st),
                   safes := finsert cell (safes st),
                   knowledge := [s],
                   fresh := Suc (fresh st)\<rparr>"
  have k: "knowledge st3 = [s]" by (simp add: st3_def)
  have km: "known_mines s = {||}" by (auto simp: known_mines_def s_def)
  have ks: "known_safes s = {||}" by (auto simp: known_safes_def s_def)
  have m: "mark_mines_loop 0 st3 = st3"
    by (subst mark_mines_loop.simps, subst mark_mines_loop.simps) (simp add: k km)
  have sf: "mark_safes_loop 0 st3 = st3"
    by (subst mark_safes_loop.simps, subst mark_safes_loop.simps) (simp add: k ks)
  have inner: "subset_inner s 0 st3 = Some st3"
    by (subst subset_inner.simps, subst subset_inner.simps) (simp add: k subset_step_def)
  have outer: "subset_outer 0 st3 = Some st3"
    by (subst subset_outer.simps) (simp add: k inner, subst subset_outer.simps, simp add: k)
  have e: "(mark_safe cell (st\<lparr>moves_made := finsert cell (moves_made st)\<rparr>))
              \<lparr>knowledge := knowledge (mark_safe cell (st\<lparr>moves_made := finsert cell (moves_made st)\<rparr>)) @
                 [\<lparr>ident = fresh (mark_safe cell (st\<lparr>moves_made := finsert cell (moves_made st)\<rparr>)),
                   cells = get_surrounding_cells st cell, count = cnt\<rparr>],
               fresh := Suc (fresh (mark_safe cell (st\<lparr>moves_made := finsert cell (moves_made st)\<rparr>)))\<rparr>
           = st3"
    using a by (simp add: st3_def s_def mark_safe_def)
  have "add_knowledge cell cnt st = Some st3"
    unfolding add_knowledge_def Let_def e by (simp add: m sf outer a)
  then show ?thesis by (simp add: st3_def s_def)
qed

text \<open>
  Claim C4, as amended. \<open>add_knowledge\<close> stores a sentence for every probe, also when
  the probed cell has no unknown neighbour, and has no rule that discards a sentence for
  having an empty cell set. Whenever a call returns, in whatever state it was made, the
  knowledge base it returns with holds, for every sentence it held before the call (with
  the probed cell taken out) and for the sentence \<open>(neighbours, count)\<close> of the probe, a
  sentence equal to it as changed by the markings of the call; under a marking a
  sentence with an empty cell set can only gain cells marked as mines. The subset pass
  removes a sentence only when an equal one stays in the list, and the deduction loops
  keep the number of sentences. A probe without unknown neighbours on an empty knowledge
  base returns with exactly the sentence \<open>(\<emptyset>, count)\<close> stored.
\<close>

theorem empty_sentence_kept:
  "(add_knowledge cell cnt st = Some st' \<longrightarrow>
      (\<exists>G. marking (mines st') (safes st') G
         \<and> (\<forall>e \<in> set (knowledge st).
               list_contains (knowledge st') (G (sentence_mark_safe cell e)))
         \<and> list_contains (knowledge st')
               (G \<lparr>ident = fresh st, cells = get_surrounding_cells st cell, count = cnt\<rparr>)))
   \<and> (marking M S H \<and> cells e = {||} \<longrightarrow> cells (H e) |\<subseteq>| M)
   \<and> (subset_outer i s = Some s' \<longrightarrow>
        (\<forall>e \<in> set (knowledge s). list_contains (knowledge s') e))
   \<and> length (knowledge (mark_mines_loop i s)) = length (knowledge s)
   \<and> length (knowledge (mark_safes_loop i s)) = length (knowledge s)
   \<and> (knowledge st = [] \<and> get_surrounding_cells st cell = {||} \<longrightarrow>
        add_knowledge cell cnt st =
          Some (st\<lparr>moves_made := finsert cell (moves_made st),
                   safes := finsert cell (safes st),
                   knowledge := [\<lparr>ident = fresh st, cells = {||}, count = cnt\<rparr>],
                   fresh := Suc (fresh st)\<rparr>))"
proof (intro conjI impI)
  assume "add_knowledge cell cnt st = Some st'"
  then show "\<exists>G. marking (mines st') (safes st') G
         \<and> (\<forall>e \<in> set (knowledge st).
               list_contains (knowledge st') (G (sentence_mark_safe cell e)))
         \<and> list_contains (knowledge st')
               (G \<lparr>ident = fresh st, cells = get_surrounding_cells st cell, count = cnt\<rparr>)"
    by (rule add_knowledge_keeps)
next
  assume "marking M S H \<and> cells e = {||}"
  with marking_cells [of M S H e] show "cells (H e) |\<subseteq>| M" by simp
next
  assume "subset_outer i s = Some s'"
  from subset_outer_keeps [OF this]
  show "\<forall>e \<in> set (knowledge s). list_contains (knowledge s') e"
    by (simp add: values_kept_def)
next
  show "length (knowledge (mark_mines_loop i s)) = length (knowledge s)"
    by (simp add: mark_mines_loop_fields)
  show "length (knowledge (mark_safes_loop i s)) = length (knowledge s)"
    by (simp add: mark_safes_loop_fields)
next
  assume "knowledge st = [] \<and> get_surrounding_cells st cell = {||}"
  then show "add_knowledge cell cnt st =
          Some (st\<lparr>moves_made := finsert cell (moves_made st),
                   safes := finsert cell (safes st),
                   knowledge := [\<lparr>ident = fresh st, cells = {||}, count = cnt\<rparr>],
                   fresh := Suc (fresh st)\<rparr>)"
    by (rule first_probe_without_neighbours)
qed

theorem empty_sentence_kept_witness:
  "add_knowledge (0, 1) 0
       
         \<lparr>height = 1, width = 2, moves_made = {|(0, 0)|}, mines = {||},
          safes = {|(0, 0), (0, 1)|},
          knowledge = [\<lparr>ident = 0, cells = {||}, count = 0\<rparr>], fresh = 1\<rparr> = Some
       
         \<lparr>height = 1, width = 2, moves_made = {|(0, 0), (0, 1)|}, mines = {||},
          safes = {|(0, 0), (0, 1)|},
          knowledge = [\<lparr>ident = 1, cells = {||}, count = 0\<rparr>], fresh = 2\<rparr>
   \<and> (\<exists>G. marking {||} {|(0, 0), (0, 1)|} G
         \<and> list_contains [\<lparr>ident = 1, cells = {||}, count = 0\<rparr>]
              (G (sentence_mark_safe (0, 1) \<lparr>ident = 0, cells = {||}, count = 0\<rparr>))
         \<and> list_contains [\<lparr>ident = 1, cells = {||}, count = 0\<rparr>]
              (G \<lparr>ident = 1, cells = {||}, count = 0\<rparr>))
   \<and> subset_outer 0
       
         \<lparr>height = 1, width = 2, moves_made = {|(0, 0), (0, 1)|}, mines = {||},
          safes = {|(0, 0), (0, 1)|},
          knowledge = [\<lparr>ident = 0, cells = {||}, count = 0\<rparr>,
                       \<lparr>ident = 1, cells = {||}, count = 0\<rparr>], fresh = 2\<rparr> = Some
       
         \<lparr>height = 1, width = 2, moves_made = {|(0, 0), (0, 1)|}, mines = {||},
          safes = {|(0, 0), (0, 1)|},
          knowledge = [\<lparr>ident = 1, cells = {||}, count = 0\<rparr>], fresh = 2\<rparr>
   \<and> list_contains [\<lparr>ident = 1, cells = {||}, count = 0\<rparr>]
        \<lparr>ident = 0, cells = {||}, count = 0\<rparr>
   \<and> knowledge (init_ai 1 1) = [] \<and> get_surrounding_cells (init_ai 1 1) (0, 0) = {||}
   \<and> add_knowledge (0, 0) 0 (init_ai 1 1) =
       Some \<lparr>height = 1, width = 1, moves_made = {|(0, 0)|}, mines = {||}, safes = {|(0, 0)|},
             knowledge = [\<lparr>ident = 0, cells = {||}, count = 0\<rparr>], fresh = 1\<rparr>"
proof -
  have r: "add_knowledge (0, 1) 0
       
         \<lparr>height = 1, width = 2, moves_made = {|(0, 0)|}, mines = {||},
          safes = {|(0, 0), (0, 1)|},
          knowledge = [\<lparr>ident = 0, cells = {||}, count = 0\<rparr>], fresh = 1\<rparr> = Some
       
         \<lparr>height = 1, width = 2, moves_made = {|(0, 0), (0, 1)|}, mines = {||},
          safes = {|(0, 0), (0, 1)|},
          knowledge = [\<lparr>ident = 1, cells = {||}, count = 0\<rparr>], fresh = 2\<rparr>"
    by code_simp
  have sc: "get_surrounding_cells
       
         \<lparr>height = 1, width = 2, moves_made = {|(0, 0)|}, mines = {||},
          safes = {|(0, 0), (0, 1)|},
          knowledge = [\<lparr>ident = 0, cells = {||}, count = 0\<rparr>], fresh = 1\<rparr> (0, 1) = {||}"
    by code_simp
  have o: "subset_outer 0
       
         \<lparr>height = 1, width = 2, moves_made = {|(0, 0), (0, 1)|}, mines = {||},
          safes = {|(0, 0), (0, 1)|},
          knowledge = [\<lparr>ident = 0, cells = {||}, count = 0\<rparr>,
                       \<lparr>ident = 1, cells = {||}, count = 0\<rparr>], fresh = 2\<rparr> = Some
       
         \<lparr>height = 1, width = 2, moves_made = {|(0, 0), (0, 1)|}, mines = {||},
          safes = {|(0, 0), (0, 1)|},
          knowledge = [\<lparr>ident = 1, cells = {||}, count = 0\<rparr>], fresh = 2\<rparr>"
    by code_simp
  have a: "knowledge (init_ai 1 1) = [] \<and> get_surrounding_cells (init_ai 1 1) (0, 0) = {||}"
    by code_simp
  note t = empty_sentence_kept [of "(0, 1)" 0
       "
         \<lparr>height = 1, width = 2, moves_made = {|(0, 0)|}, mines = {||},
          safes = {|(0, 0), (0, 1)|},
          knowledge = [\<lparr>ident = 0, cells = {||}, count = 0\<rparr>], fresh = 1\<rparr>"
       "
         \<lparr>height = 1, width = 2, moves_made = {|(0, 0), (0, 1)|}, mines = {||},
          safes = {|(0, 0), (0, 1)|},
          knowledge = [\<lparr>ident = 1, cells = {||}, count = 0\<rparr>], fresh = 2\<rparr>" "{||}" "{||}" "\<lambda>s. s" "\<lparr>ident = 0, cells = {||}, count = 0\<rparr>" 0
       "
         \<lparr>height = 1, width = 2, moves_made = {|(0, 0), (0, 1)|}, mines = {||},
          safes = {|(0, 0), (0, 1)|},
          knowledge = [\<lparr>ident = 0, cells = {||}, count = 0\<rparr>,
                       \<lparr>ident = 1, cells = {||}, count = 0\<rparr>], fresh = 2\<rparr>"
       "
         \<lparr>height = 1, width = 2, moves_made = {|(0, 0), (0, 1)|}, mines = {||},
          safes = {|(0, 0), (0, 1)|},
          knowledge = [\<lparr>ident = 1, cells = {||}, count = 0\<rparr>], fresh = 2\<rparr>"]
  from t [THEN conjunct1, THEN mp, OF r] obtain G where
    G: "marking (mines
         
         \<lparr>height = 1, width = 2, moves_made = {|(0, 0), (0, 1)|}, mines = {||},
          safes = {|(0, 0), (0, 1)|},
          knowledge = [\<lparr>ident = 1, cells = {||}, count = 0\<rparr>], fresh = 2\<rparr>) (safes
         
         \<lparr>height = 1, width = 2, moves_made = {|(0, 0), (0, 1)|}, mines = {||},
          safes = {|(0, 0), (0, 1)|},
          knowledge = [\<lparr>ident = 1, cells = {||}, count = 0\<rparr>], fresh = 2\<rparr>) G"
      "\<forall>e \<in> set (knowledge
         
         \<lparr>height = 1, width = 2, moves_made = {|(0, 0)|}, mines = {||},
          safes = {|(0, 0), (0, 1)|},
          knowledge = [\<lparr>ident = 0, cells = {||}, count = 0\<rparr>], fresh = 1\<rparr>). list_contains (knowledge
         
         \<lparr>height = 1, width = 2, moves_made = {|(0, 0), (0, 1)|}, mines = {||},
          safes = {|(0, 0), (0, 1)|},
          knowledge = [\<lparr>ident = 1, cells = {||}, count = 0\<rparr>], fresh = 2\<rparr>) (G (sentence_mark_safe (0, 1) e))"
      "list_contains (knowledge
         
         \<lparr>height = 1, width = 2, moves_made = {|(0, 0), (0, 1)|}, mines = {||},
          safes = {|(0, 0), (0, 1)|},
          knowledge = [\<lparr>ident = 1, cells = {||}, count = 0\<rparr>], fresh = 2\<rparr>) (G \<lparr>ident = fresh
         
         \<lparr>height = 1, width = 2, moves_made = {|(0, 0)|}, mines = {||},
          safes = {|(0, 0), (0, 1)|},
          knowledge = [\<lparr>ident = 0, cells = {||}, count = 0\<rparr>], fresh = 1\<rparr>, cells = get_surrounding_cells
         
         \<lparr>height = 1, width = 2, moves_made = {|(0, 0)|}, mines = {||},
          safes = {|(0, 0), (0, 1)|},
          knowledge = [\<lparr>ident = 0, cells = {||}, count = 0\<rparr>], fresh = 1\<rparr> (0, 1), count = 0\<rparr>)"
    by blast
  have "marking {||} {|(0, 0), (0, 1)|} G" using G(1) by simp
  moreover have "list_contains [\<lparr>ident = 1, cells = {||}, count = 0\<rparr>]
              (G (sentence_mark_safe (0, 1) \<lparr>ident = 0, cells = {||}, count = 0\<rparr>))"
    using G(2) by simp
  moreover have "list_contains [\<lparr>ident = 1, cells = {||}, count = 0\<rparr>]
              (G \<lparr>ident = 1, cells = {||}, count = 0\<rparr>)"
    using G(3) unfolding sc by simp
  ultimately have 1: "\<exists>G. marking {||} {|(0, 0), (0, 1)|} G
         \<and> list_contains [\<lparr>ident = 1, cells = {||}, count = 0\<rparr>]
              (G (sentence_mark_safe (0, 1) \<lparr>ident = 0, cells = {||}, count = 0\<rparr>))
         \<and> list_contains [\<lparr>ident = 1, cells = {||}, count = 0\<rparr>]
              (G \<lparr>ident = 1, cells = {||}, count = 0\<rparr>)"
    by blast
  from t [THEN conjunct2, THEN conjunct2, THEN conjunct1, THEN mp, OF o]
  have 2: "list_contains [\<lparr>ident = 1, cells = {||}, count = 0\<rparr>]
        \<lparr>ident = 0, cells = {||}, count = 0\<rparr>"
    by simp
  from empty_sentence_kept [of "(0, 0)" 0 "init_ai 1 1" undefined "{||}" "{||}" "\<lambda>s. s"
      "\<lparr>ident = 0, cells = {||}, count = 0\<rparr>" 0 "init_ai 1 1" undefined,
      THEN conjunct2, THEN conjunct2, THEN conjunct2, THEN conjunct2, THEN conjunct2,
      THEN mp, OF a]
  have 3: "add_knowledge (0, 0) 0 (init_ai 1 1) =
       Some \<lparr>height = 1, width = 1, moves_made = {|(0, 0)|}, mines = {||}, safes = {|(0, 0)|},
             knowledge = [\<lparr>ident = 0, cells = {||}, count = 0\<rparr>], fresh = 1\<rparr>"
    by (simp add: init_ai_def)
  from r 1 o 2 a 3 show ?thesis by blast
qed

text \<open>
  On a board of one row and two columns without mines, the truthful observations
  \<open>((0, 0), 0)\<close> and \<open>((0, 1), 0)\<close> leave a sentence with an empty cell set in the
  knowledge base.
\<close>

theorem empty_sentence_counterexample:
  "add_knowledge_seq [((0, 0), 0), ((0, 1), 0)] (init_ai 1 2) =
     Some \<lparr>height = 1, width = 2, moves_made = {|(0, 0), (0, 1)|}, mines = {||}, safes = {|(0, 0), (0, 1)|},
           knowledge = [\<lparr>ident = 1, cells = {||}, count = 0\<rparr>], fresh = 2\<rparr>"
  by code_simp

section \<open>Monotonicity\<close>

text \<open>
  Claim C5. Over any sequence of calls of \<open>add_knowledge\<close> that returns, from any state,
  the sets \<open>safes\<close> and \<open>mines\<close> lose no member: both are subsets of what they are
  after the calls.
\<close>

theorem add_knowledge_seq_monotone:
  "add_knowledge_seq obs st = Some st' \<Longrightarrow> safes st |\<subseteq>| safes st' \<and> mines st |\<subseteq>| mines st'"
proof (induction obs arbitrary: st)
  case Nil
  then show ?case by simp
next
  case (Cons ob obs)
  from Cons.prems obtain st1 where a: "add_knowledge (fst ob) (snd ob) st = Some st1"
    and b: "add_knowledge_seq obs st1 = Some st'"
    by (auto simp: bind_eq_Some_conv)
  from add_knowledge_grows [OF a] Cons.IH [OF b] show ?case by auto
qed

theorem add_knowledge_seq_monotone_witness:
  "add_knowledge_seq [((0, 3), 1)] \<lparr>height = 1, width = 5, moves_made = {|(0, 0)|}, mines = {|(0, 1)|},
           safes = {|(0, 0)|}, knowledge = [\<lparr>ident = 0, cells = {|(0, 1)|}, count = 1\<rparr>], fresh = 1\<rparr>
    = Some \<lparr>height = 1, width = 5, moves_made = {|(0, 0), (0, 3)|}, mines = {|(0, 1)|},
           safes = {|(0, 0), (0, 3)|},
           knowledge = [\<lparr>ident = 0, cells = {|(0, 1)|}, count = 1\<rparr>,
                        \<lparr>ident = 1, cells = {|(0, 1), (0, 2), (0, 4)|}, count = 2\<rparr>,
                        \<lparr>ident = 2, cells = {|(0, 1), (0, 2), (0, 4)|}, count = 2\<rparr>],
           fresh = 3\<rparr>
   \<and> {|(0, 0)|} |\<subseteq>| {|(0, 0), (0 :: int, 3 :: int)|} \<and> {|(0, 1)|} |\<subseteq>| {|(0 :: int, 1 :: int)|}"
proof -
  have a: "add_knowledge_seq [((0, 3), 1)] \<lparr>height = 1, width = 5, moves_made = {|(0, 0)|}, mines = {|(0, 1)|},
           safes = {|(0, 0)|}, knowledge = [\<lparr>ident = 0, cells = {|(0, 1)|}, count = 1\<rparr>], fresh = 1\<rparr>
    = Some \<lparr>height = 1, width = 5, moves_made = {|(0, 0), (0, 3)|}, mines = {|(0, 1)|},
           safes = {|(0, 0), (0, 3)|},
           knowledge = [\<lparr>ident = 0, cells = {|(0, 1)|}, count = 1\<rparr>,
                        \<lparr>ident = 1, cells = {|(0, 1), (0, 2), (0, 4)|}, count = 2\<rparr>,
                        \<lparr>ident = 2, cells = {|(0, 1), (0, 2), (0, 4)|}, count = 2\<rparr>],
           fresh = 3\<rparr>"
    by code_simp
  from add_knowledge_seq_monotone [OF a] a show ?thesis by simp
qed

section \<open>Duplicate sentences\<close>

text \<open>
  Claim C6 at a failing input. The board has one row and five columns, with mines at
  \<open>(0, 1)\<close> and \<open>(0, 4)\<close>; the observations \<open>((0, 0), 1)\<close> and \<open>((0, 3), 1)\<close> are
  truthful. The subset pass derives \<open>({(0, 2), (0, 4)}, 1)\<close>; the deduction pass after it
  marks the mine \<open>(0, 1)\<close> once more, which adds that cell to the derived sentence and
  makes it equal to the second sentence. The call returns with both.
\<close>

theorem duplicates_at_return:
  "add_knowledge_seq [((0, 0), 1), ((0, 3), 1)] (init_ai 1 5)
    = Some \<lparr>height = 1, width = 5, moves_made = {|(0, 0), (0, 3)|}, mines = {|(0, 1)|},
           safes = {|(0, 0), (0, 3)|},
           knowledge = [\<lparr>ident = 0, cells = {|(0, 1)|}, count = 1\<rparr>,
                        \<lparr>ident = 1, cells = {|(0, 1), (0, 2), (0, 4)|}, count = 2\<rparr>,
                        \<lparr>ident = 2, cells = {|(0, 1), (0, 2), (0, 4)|}, count = 2\<rparr>],
           fresh = 3\<rparr>"
  by code_simp

section \<open>The subset pass and fixpoints\<close>

text \<open>
  Claim C3, as amended. \<open>add_knowledge\<close> makes one subset pass between two deduction
  passes and does not repeat them. What the pass gives is local to a visit: when the
  loops visit two different objects that are not equal and the cells of the first are a
  subset of the cells of the second, a sentence equal to the difference is in the
  knowledge base right after the visit.
\<close>

theorem subset_step_derives:
  assumes "ident s1 \<noteq> ident s2" and "\<not> sentence_eq s1 s2" and "cells s1 |\<subseteq>| cells s2"
  shows "list_contains (knowledge (subset_step s1 s2 st))
           \<lparr>ident = k, cells = cells s2 |-| cells s1, count = count s2 - count s1\<rparr>"
  using assms by (auto simp: subset_step_def Let_def list_contains_def sentence_eq_def list_ex_iff)

theorem subset_step_derives_witness:
  "list_contains (knowledge (subset_step \<lparr>ident = 0, cells = {|(0, 1)|}, count = 1\<rparr>
        \<lparr>ident = 1, cells = {|(0, 1), (0, 2), (0, 4)|}, count = 2\<rparr>
        \<lparr>height = 1, width = 5, moves_made = {|(0, 0), (0, 3)|}, mines = {|(0, 1)|},
           safes = {|(0, 0), (0, 3)|},
           knowledge = [\<lparr>ident = 0, cells = {|(0, 1)|}, count = 1\<rparr>,
                        \<lparr>ident = 1, cells = {|(0, 1), (0, 2), (0, 4)|}, count = 2\<rparr>],
           fresh = 2\<rparr>))
     \<lparr>ident = 2, cells = {|(0, 2), (0, 4)|}, count = 1\<rparr>"
proof -
  have c: "{|(0, 1), (0, 2), (0, 4)|} |-| {|(0 :: int, 1 :: int)|} = {|(0, 2), (0, 4)|}" by code_simp
  show ?thesis
    using subset_step_derives [of "\<lparr>ident = 0, cells = {|(0, 1)|}, count = 1\<rparr>"
        "\<lparr>ident = 1, cells = {|(0, 1), (0, 2), (0, 4)|}, count = 2\<rparr>"
        "\<lparr>height = 1, width = 5, moves_made = {|(0, 0), (0, 3)|}, mines = {|(0, 1)|},
           safes = {|(0, 0), (0, 3)|},
           knowledge = [\<lparr>ident = 0, cells = {|(0, 1)|}, count = 1\<rparr>,
                        \<lparr>ident = 1, cells = {|(0, 1), (0, 2), (0, 4)|}, count = 2\<rparr>],
           fresh = 2\<rparr>" 2]
    by (simp add: sentence_eq_def c)
qed

text \<open>
  The state returned by the run of claim C6 is not closed under the subset pass: run
  again on it, the pass appends \<open>({(0, 2), (0, 4)}, 1)\<close>, to which no sentence of the
  returned knowledge base is equal.
\<close>

theorem no_fixpoint_counterexample:
  "add_knowledge_seq [((0, 0), 1), ((0, 3), 1)] (init_ai 1 5)
    = Some \<lparr>height = 1, width = 5, moves_made = {|(0, 0), (0, 3)|}, mines = {|(0, 1)|},
           safes = {|(0, 0), (0, 3)|},
           knowledge = [\<lparr>ident = 0, cells = {|(0, 1)|}, count = 1\<rparr>,
                        \<lparr>ident = 1, cells = {|(0, 1), (0, 2), (0, 4)|}, count = 2\<rparr>,
                        \<lparr>ident = 2, cells = {|(0, 1), (0, 2), (0, 4)|}, count = 2\<rparr>],
           fresh = 3\<rparr>
   \<and> subset_outer 0 \<lparr>height = 1, width = 5, moves_made = {|(0, 0), (0, 3)|}, mines = {|(0, 1)|},
           safes = {|(0, 0), (0, 3)|},
           knowledge = [\<lparr>ident = 0, cells = {|(0, 1)|}, count = 1\<rparr>,
                        \<lparr>ident = 1, cells = {|(0, 1), (0, 2), (0, 4)|}, count = 2\<rparr>,
                        \<lparr>ident = 2, cells = {|(0, 1), (0, 2), (0, 4)|}, count = 2\<rparr>],
           fresh = 3\<rparr>
    = Some \<lparr>height = 1, width = 5, moves_made = {|(0, 0), (0, 3)|}, mines = {|(0, 1)|},
           safes = {|(0, 0), (0, 3)|},
           knowledge = [\<lparr>ident = 0, cells = {|(0, 1)|}, count = 1\<rparr>,
                        \<lparr>ident = 2, cells = {|(0, 1), (0, 2), (0, 4)|}, count = 2\<rparr>,
                        \<lparr>ident = 3, cells = {|(0, 2), (0, 4)|}, count = 1\<rparr>],
           fresh = 4\<rparr>
   \<and> \<not> list_contains [\<lparr>ident = 0, cells = {|(0, 1)|}, count = 1\<rparr>,
                        \<lparr>ident = 1, cells = {|(0, 1), (0, 2), (0, 4)|}, count = 2\<rparr>,
                        \<lparr>ident = 2, cells = {|(0, 1), (0, 2), (0, 4)|}, count = 2\<rparr>]
                      \<lparr>ident = 3, cells = {|(0, 2), (0, 4)|}, count = 1\<rparr>"
  by code_simp

section \<open>Choosing a move\<close>

text \<open>
  Claim C9. \<open>make_safe_move\<close> always returns; whatever it returns, the state is the one
  it was called in; the value is \<open>None\<close> when \<open>safes - moves_made\<close> is empty and
  otherwise a cell of \<open>safes\<close> that is not in \<open>moves_made\<close>.
\<close>

theorem make_safe_move_spec:
  "make_safe_move st \<noteq> {}
   \<and> (\<forall>(move, st') \<in> make_safe_move st.
         st' = st
         \<and> (if safes st |-| moves_made st = {||} then move = None
            else \<exists>c. move = Some c \<and> c |\<in>| safes st \<and> c |\<notin>| moves_made st))"
proof -
  define moves where "moves = safes st |-| moves_made st"
  have mem: "c |\<in>| moves \<longleftrightarrow> c |\<in>| safes st \<and> c |\<notin>| moves_made st" for c
    by (simp add: moves_def)
  have def: "make_safe_move st =
      (if moves \<noteq> {||} then (\<lambda>(move, rest). (Some move, st)) ` set_pop moves else {(None, st)})"
    unfolding make_safe_move_def Let_def moves_def [symmetric] fcard_pos_iff ..
  show ?thesis
  proof (cases "moves = {||}")
    case True
    then show ?thesis unfolding moves_def [symmetric] def by simp
  next
    case False
    then obtain c where "c |\<in>| moves" by auto
    then have "(c, moves |-| {|c|}) \<in> set_pop moves" by (simp add: set_pop_iff)
    then have ne: "set_pop moves \<noteq> {}" by blast
    from False ne show ?thesis unfolding moves_def [symmetric] def
      by (auto simp: set_pop_iff mem)
  qed
qed

theorem make_safe_move_spec_witness:
  "(Some (0, 1), \<lparr>height = 1, width = 2, moves_made = {|(0, 0)|}, mines = {||},
                  safes = {|(0, 0), (0, 1)|}, knowledge = [\<lparr>ident = 0, cells = {||}, count = 0\<rparr>],
                  fresh = 1\<rparr>)
     \<in> make_safe_move \<lparr>height = 1, width = 2, moves_made = {|(0, 0)|}, mines = {||},
                  safes = {|(0, 0), (0, 1)|}, knowledge = [\<lparr>ident = 0, cells = {||}, count = 0\<rparr>],
                  fresh = 1\<rparr>
   \<and> (0, 1) |\<in>| {|(0, 0), (0 :: int, 1 :: int)|} \<and> (0, 1) |\<notin>| {|(0 :: int, 0 :: int)|}"
proof -
  have m: "(Some (0, 1), \<lparr>height = 1, width = 2, moves_made = {|(0, 0)|}, mines = {||},
                  safes = {|(0, 0), (0, 1)|}, knowledge = [\<lparr>ident = 0, cells = {||}, count = 0\<rparr>],
                  fresh = 1\<rparr>)
     \<in> make_safe_move \<lparr>height = 1, width = 2, moves_made = {|(0, 0)|}, mines = {||},
                  safes = {|(0, 0), (0, 1)|}, knowledge = [\<lparr>ident = 0, cells = {||}, count = 0\<rparr>],
                  fresh = 1\<rparr>"
    by code_simp
  from make_safe_move_spec [of "\<lparr>height = 1, width = 2, moves_made = {|(0, 0)|}, mines = {||},
                  safes = {|(0, 0), (0, 1)|}, knowledge = [\<lparr>ident = 0, cells = {||}, count = 0\<rparr>],
                  fresh = 1\<rparr>"] m
  show ?thesis by auto
qed

text \<open>
  Claim C10 at a failing input: a fresh player on a board of one row and two columns.
  \<open>make_random_move\<close> builds the set of candidate cells and returns what \<open>set.pop()\<close>
  gives; the function draws nothing from a random source, so the choice among the two
  candidates is the one the set's layout fixes, not a uniform draw.
\<close>

theorem make_random_move_not_random:
  "make_random_move (init_ai 1 2) = {(Some (0, 0), init_ai 1 2), (Some (0, 1), init_ai 1 2)}"
  by code_simp

section \<open>Soundness\<close>

text \<open>
  Claim C1. For every board and every sequence of truthful observations given to a fresh
  player of the board's dimensions, the calls of \<open>add_knowledge\<close> return, and in the
  state they return every cell of \<open>mines\<close> is a hazard of the board and no cell of
  \<open>safes\<close> is one. Nothing is asked of the order of the probes or of a cell being probed
  once only.
\<close>

theorem add_knowledge_sound:
  assumes "list_all (truthful g) obs"
  shows "\<exists>st'. add_knowledge_seq obs (init_ai (board_height g) (board_width g)) = Some st'
           \<and> fBall (mines st') (hazard g) \<and> fBall (safes st') (\<lambda>c. \<not> hazard g c)"
proof -
  from add_knowledge_seq_total [OF sound_init assms]
  obtain st' where "add_knowledge_seq obs (init_ai (board_height g) (board_width g)) = Some st'"
    and "sound g st'" by blast
  then show ?thesis by (auto simp: sound_def)
qed

theorem add_knowledge_sound_witness:
  "list_all (truthful 
     \<lparr>board_height = 1, board_width = 5, board = [[False, True, False, False, True]]\<rparr>) [((0, 0), 1), ((0, 3), 1)]
   \<and> add_knowledge_seq [((0, 0), 1), ((0, 3), 1)] (init_ai 1 5) = Some 
     \<lparr>height = 1, width = 5, moves_made = {|(0, 0), (0, 3)|}, mines = {|(0, 1)|},
           safes = {|(0, 0), (0, 3)|},
           knowledge = [\<lparr>ident = 0, cells = {|(0, 1)|}, count = 1\<rparr>,
                        \<lparr>ident = 1, cells = {|(0, 1), (0, 2), (0, 4)|}, count = 2\<rparr>,
                        \<lparr>ident = 2, cells = {|(0, 1), (0, 2), (0, 4)|}, count = 2\<rparr>],
           fresh = 3\<rparr>
   \<and> hazard 
     \<lparr>board_height = 1, board_width = 5, board = [[False, True, False, False, True]]\<rparr> (0, 1) \<and> \<not> hazard 
     \<lparr>board_height = 1, board_width = 5, board = [[False, True, False, False, True]]\<rparr> (0, 0) \<and> \<not> hazard 
     \<lparr>board_height = 1, board_width = 5, board = [[False, True, False, False, True]]\<rparr> (0, 3)"
proof -
  have t: "list_all (truthful 
     \<lparr>board_height = 1, board_width = 5, board = [[False, True, False, False, True]]\<rparr>) [((0, 0), 1), ((0, 3), 1)]"
    by code_simp
  have r: "add_knowledge_seq [((0, 0), 1), ((0, 3), 1)] (init_ai 1 5) = Some 
     \<lparr>height = 1, width = 5, moves_made = {|(0, 0), (0, 3)|}, mines = {|(0, 1)|},
           safes = {|(0, 0), (0, 3)|},
           knowledge = [\<lparr>ident = 0, cells = {|(0, 1)|}, count = 1\<rparr>,
                        \<lparr>ident = 1, cells = {|(0, 1), (0, 2), (0, 4)|}, count = 2\<rparr>,
                        \<lparr>ident = 2, cells = {|(0, 1), (0, 2), (0, 4)|}, count = 2\<rparr>],
           fresh = 3\<rparr>"
    by code_simp
  from add_knowledge_sound [OF t] r
  have "fBall {|(0, 1)|} (hazard 
     \<lparr>board_height = 1, board_width = 5, board = [[False, True, False, False, True]]\<rparr>)
      \<and> fBall {|(0, 0), (0, 3)|} (\<lambda>c. \<not> hazard 
     \<lparr>board_height = 1, board_width = 5, board = [[False, True, False, False, True]]\<rparr> c)"
    by simp
  with t r show ?thesis by simp
qed

section \<open>Counts stay in range\<close>

text \<open>
  Claim C7. For every board and every sequence of truthful observations given to a fresh
  player of the board's dimensions, the calls return, and every sentence of the
  knowledge base they return with has a count of at least 0 and at most the size of its
  cell set.
\<close>

theorem count_in_range:
  assumes "list_all (truthful g) obs"
  shows "\<exists>st'. add_knowledge_seq obs (init_ai (board_height g) (board_width g)) = Some st'
           \<and> list_all (\<lambda>s. 0 \<le> count s \<and> count s \<le> int (fcard (cells s))) (knowledge st')"
proof -
  from add_knowledge_seq_total [OF sound_init assms]
  obtain st' where r: "add_knowledge_seq obs (init_ai (board_height g) (board_width g)) = Some st'"
    and s: "sound g st'" by blast
  have "0 \<le> count s \<and> count s \<le> int (fcard (cells s))" if "s \<in> set (knowledge st')" for s
  proof -
    from s that have "sentence_true g s" by (simp add: sound_def list_all_iff)
    with hazard_count_bounds [of g "cells s"] show ?thesis by (simp add: sentence_true_def)
  qed
  with r show ?thesis by (simp add: list_all_iff)
qed

theorem count_in_range_witness:
  "list_all (truthful 
     \<lparr>board_height = 1, board_width = 5, board = [[False, True, False, False, True]]\<rparr>) [((0, 0), 1), ((0, 3), 1)]
   \<and> add_knowledge_seq [((0, 0), 1), ((0, 3), 1)] (init_ai 1 5) = Some 
     \<lparr>height = 1, width = 5, moves_made = {|(0, 0), (0, 3)|}, mines = {|(0, 1)|},
           safes = {|(0, 0), (0, 3)|},
           knowledge = [\<lparr>ident = 0, cells = {|(0, 1)|}, count = 1\<rparr>,
                        \<lparr>ident = 1, cells = {|(0, 1), (0, 2), (0, 4)|}, count = 2\<rparr>,
                        \<lparr>ident = 2, cells = {|(0, 1), (0, 2), (0, 4)|}, count = 2\<rparr>],
           fresh = 3\<rparr>
   \<and> list_all (\<lambda>s. 0 \<le> count s \<and> count s \<le> int (fcard (cells s))) (knowledge 
     \<lparr>height = 1, width = 5, moves_made = {|(0, 0), (0, 3)|}, mines = {|(0, 1)|},
           safes = {|(0, 0), (0, 3)|},
           knowledge = [\<lparr>ident = 0, cells = {|(0, 1)|}, count = 1\<rparr>,
                        \<lparr>ident = 1, cells = {|(0, 1), (0, 2), (0, 4)|}, count = 2\<rparr>,
                        \<lparr>ident = 2, cells = {|(0, 1), (0, 2), (0, 4)|}, count = 2\<rparr>],
           fresh = 3\<rparr>)"
proof -
  have t: "list_all (truthful 
     \<lparr>board_height = 1, board_width = 5, board = [[False, True, False, False, True]]\<rparr>) [((0, 0), 1), ((0, 3), 1)]"
    by code_simp
  have r: "add_knowledge_seq [((0, 0), 1), ((0, 3), 1)] (init_ai 1 5) = Some 
     \<lparr>height = 1, width = 5, moves_made = {|(0, 0), (0, 3)|}, mines = {|(0, 1)|},
           safes = {|(0, 0), (0, 3)|},
           knowledge = [\<lparr>ident = 0, cells = {|(0, 1)|}, count = 1\<rparr>,
                        \<lparr>ident = 1, cells = {|(0, 1), (0, 2), (0, 4)|}, count = 2\<rparr>,
                        \<lparr>ident = 2, cells = {|(0, 1), (0, 2), (0, 4)|}, count = 2\<rparr>],
           fresh = 3\<rparr>"
    by code_simp
  from count_in_range [OF t] r
  have "list_all (\<lambda>s. 0 \<le> count s \<and> count s \<le> int (fcard (cells s))) (knowledge 
     \<lparr>height = 1, width = 5, moves_made = {|(0, 0), (0, 3)|}, mines = {|(0, 1)|},
           safes = {|(0, 0), (0, 3)|},
           knowledge = [\<lparr>ident = 0, cells = {|(0, 1)|}, count = 1\<rparr>,
                        \<lparr>ident = 1, cells = {|(0, 1), (0, 2), (0, 4)|}, count = 2\<rparr>,
                        \<lparr>ident = 2, cells = {|(0, 1), (0, 2), (0, 4)|}, count = 2\<rparr>],
           fresh = 3\<rparr>)"
    by simp
  with t r show ?thesis by simp
qed

section \<open>Termination\<close>

text \<open>
  Claim C8, as amended. \<open>add_knowledge\<close> returns whenever the state it is called in is
  sound for some board and the observation is truthful for that board; this covers every
  call of a sequence of truthful observations given to a fresh player. The subset pass
  then ends because a sentence without cells has count 0 and because equal cell sets
  have equal counts, so that only finitely many different sentences can be appended.
\<close>

theorem add_knowledge_terminates:
  assumes "sound g st" and "truthful g (cell, cnt)"
  shows "\<exists>st'. add_knowledge cell cnt st = Some st'"
  using add_knowledge_total [OF assms] by blast

theorem add_knowledge_terminates_witness:
  "sound 
     \<lparr>board_height = 1, board_width = 5, board = [[False, True, False, False, True]]\<rparr> (init_ai 1 5) \<and> truthful 
     \<lparr>board_height = 1, board_width = 5, board = [[False, True, False, False, True]]\<rparr> ((0, 0), 1)
   \<and> (\<exists>st'. add_knowledge (0, 0) 1 (init_ai 1 5) = Some st')"
proof -
  have s: "sound 
     \<lparr>board_height = 1, board_width = 5, board = [[False, True, False, False, True]]\<rparr> (init_ai 1 5)"
    by code_simp
  have t: "truthful 
     \<lparr>board_height = 1, board_width = 5, board = [[False, True, False, False, True]]\<rparr> ((0, 0), 1)"
    by code_simp
  from add_knowledge_terminates [OF s t] s t show ?thesis by simp
qed

text \<open>
  Without these conditions the call need not return. A fresh player on a board of one
  cell is told \<open>((0, 0), 1)\<close> and then \<open>((0, 0), 2)\<close>: the first call returns with the
  sentence \<open>(\<emptyset>, 1)\<close>; in the second the subset pass, with \<open>(\<emptyset>, 2)\<close> as
  \<open>sentence1\<close>, appends \<open>(\<emptyset>, -1)\<close>, then \<open>(\<emptyset>, -3)\<close>, and so on without end.
\<close>

theorem add_knowledge_diverges:
  "add_knowledge (0, 0) 1 (init_ai 1 1) =
     Some \<lparr>height = 1, width = 1, moves_made = {|(0, 0)|}, mines = {||}, safes = {|(0, 0)|},
           knowledge = [\<lparr>ident = 0, cells = {||}, count = 1\<rparr>], fresh = 1\<rparr>
   \<and> add_knowledge (0, 0) 2
     \<lparr>height = 1, width = 1, moves_made = {|(0, 0)|}, mines = {||}, safes = {|(0, 0)|},
      knowledge = [\<lparr>ident = 0, cells = {||}, count = 1\<rparr>], fresh = 1\<rparr> = None"
proof -
  have first: "add_knowledge (0, 0) 1 (init_ai 1 1) =
     Some \<lparr>height = 1, width = 1, moves_made = {|(0, 0)|}, mines = {||}, safes = {|(0, 0)|},
           knowledge = [\<lparr>ident = 0, cells = {||}, count = 1\<rparr>], fresh = 1\<rparr>"
    by code_simp
  define a where "a = \<lparr>ident = 0, cells = {||} :: cell fset, count = 1\<rparr>"
  define b where "b = \<lparr>ident = 1, cells = {||} :: cell fset, count = 2\<rparr>"
  define c where "c = \<lparr>ident = 2, cells = {||} :: cell fset, count = - 1\<rparr>"
  define S0 where "S0 = \<lparr>height = 1, width = 1, moves_made = {|(0, 0)|}, mines = {||},
      safes = {|(0, 0)|}, knowledge = [a], fresh = 1\<rparr>"
  define T where "T = \<lparr>height = 1, width = 1, moves_made = {|(0, 0)|}, mines = {||},
      safes = {|(0, 0)|}, knowledge = [a, b], fresh = 2\<rparr>"
  define T1 where "T1 = \<lparr>height = 1, width = 1, moves_made = {|(0, 0)|}, mines = {||},
      safes = {|(0, 0)|}, knowledge = [a, b, c], fresh = 3\<rparr>"
  have sc: "get_surrounding_cells S0 (0, 0) = {||}"
    unfolding S0_def a_def by code_simp
  have e: "(mark_safe (0, 0) (S0\<lparr>moves_made := finsert (0, 0) (moves_made S0)\<rparr>))
              \<lparr>knowledge := knowledge (mark_safe (0, 0) (S0\<lparr>moves_made := finsert (0, 0) (moves_made S0)\<rparr>)) @
                 [\<lparr>ident = fresh (mark_safe (0, 0) (S0\<lparr>moves_made := finsert (0, 0) (moves_made S0)\<rparr>)),
                   cells = {||}, count = 2\<rparr>],
               fresh := Suc (fresh (mark_safe (0, 0) (S0\<lparr>moves_made := finsert (0, 0) (moves_made S0)\<rparr>)))\<rparr>
           = T"
    unfolding S0_def T_def a_def b_def by code_simp
  have m: "mark_safes_loop 0 (mark_mines_loop 0 T) = T"
    unfolding T_def a_def b_def by code_simp
  have i0: "subset_inner a 0 T = Some T"
    unfolding T_def a_def b_def by code_simp
  have s1: "subset_step b a T = T1"
    unfolding T_def T1_def a_def b_def c_def by code_simp
  have s2: "subset_step b b T1 = T1"
    by (simp add: subset_step_def)
  have "runaway b 2 T1"
    by (auto simp: runaway_def T1_def a_def b_def c_def)
  then have "subset_inner b 2 T1 = None" by (rule runaway_None)
  then have "subset_inner b 1 T1 = None"
    by (subst subset_inner.simps) (simp add: T1_def s2 [unfolded T1_def] numeral_2_eq_2)
  then have i1: "subset_inner b 0 T = None"
    by (subst subset_inner.simps) (simp add: T_def s1 [unfolded T_def])
  have "subset_outer 1 T = None"
    by (subst subset_outer.simps) (simp add: T_def i1 [unfolded T_def])
  then have "subset_outer 0 T = None"
    by (subst subset_outer.simps) (simp add: T_def i0 [unfolded T_def])
  then have "add_knowledge (0, 0) 2 S0 = None"
    unfolding add_knowledge_def Let_def sc e by (simp add: m)
  then show ?thesis using first by (simp add: S0_def a_def)
qed

end
